theory Spec2Isabelle
  imports Main
begin

section \<open>Data model\<close>

text \<open>
  The program is a two-stage reader for a JSON-like grammar, written in Python: a
  tokenizer over the characters of a text and a recursive-descent parser over the
  tokens, both working on the class \<^verbatim>\<open>Stream\<close>. Every exception the program can
  raise is a value of the type \<open>error\<close>; a function that may raise returns
  \<open>error + result\<close>, with \<open>Inl\<close> for the exception. A method that works on a
  stream takes the stream and returns it with its result, so that the one field the
  program ever assigns, the cursor, is passed on explicitly.

  A Python character is modelled by a \<open>char\<close>, which covers the code points 0 to 255;
  the two character classes the tokenizer asks for are written out for these code points.
  The limits of an interpreter (the depth of recursion, the memory, the digits of an
  \<^verbatim>\<open>int\<close>) are not part of the model.
\<close>

text \<open>
  The message of a \<^verbatim>\<open>ValueError\<close>, by the place that raises it:
  \<^item> \<open>Expected expected actual\<close>: \<^verbatim>\<open>consume\<close>, "Expected '...', got '...'";
  \<^item> \<open>InvalidNumeric cursor\<close>: \<^verbatim>\<open>tokenize_num\<close>, "Invalid numeric at index '...'";
  \<^item> \<open>UnexpectedChar char cursor\<close>: \<^verbatim>\<open>tokenize\<close>, "Unexpected char '...' at index '...'";
  \<^item> \<open>UnexpectedJSONValue token\<close>: \<^verbatim>\<open>parse_value\<close>, "Unexpected JSON value: '...'";
  \<^item> \<open>UnexpectedTokenNumber cursor\<close>: \<^verbatim>\<open>parse\<close>, "Unexpected token number '...'";
  \<^item> \<open>UnexpectedTokenAtEnd token\<close>: \<^verbatim>\<open>parse\<close>, "Unexpected token at end of file: '...'";
  \<^item> \<open>InvalidLiteral text\<close>: the built-in conversions \<^verbatim>\<open>int\<close> and \<^verbatim>\<open>float\<close>
    on a text that is no decimal literal.
\<close>

datatype 'a message =
    Expected 'a 'a
  | InvalidNumeric int
  | UnexpectedChar 'a int
  | UnexpectedJSONValue 'a
  | UnexpectedTokenNumber int
  | UnexpectedTokenAtEnd "'a option"
  | InvalidLiteral string

datatype 'a error =
    IndexError
  | AttributeError
  | TypeError
  | ValueError "'a message"

text \<open>
  A Python \<^verbatim>\<open>float\<close> is kept as the decimal literal it was converted from, standing
  for the result of \<^verbatim>\<open>float\<close> on that text: the program never calculates with a
  number and never compares two of them.
\<close>

datatype pyfloat = Float string

text \<open>
  The tokenizer's list holds Python objects of three classes: \<^verbatim>\<open>str\<close> (a
  punctuation character, or a string literal with both of its quotes), \<^verbatim>\<open>int\<close> and
  \<^verbatim>\<open>float\<close>.
\<close>

datatype token = TStr string | TInt int | TFloat pyfloat

text \<open>
  The tree: a \<^verbatim>\<open>dict\<close> keeps its keys in the order of their first insertion, so it
  is an association list, which the assignment to a key keeps free of double keys.
\<close>

datatype pyvalue =
    VDict "(string \<times> pyvalue) list"
  | VList "pyvalue list"
  | VStr string
  | VInt int
  | VFloat pyfloat

subsection \<open>Stream\<close>

record 'a stream =
  s_data :: "'a list"
  s_cursor :: int
  s_end :: int

definition Stream :: "'a list \<Rightarrow> 'a stream" where
  "Stream data = \<lparr>s_data = data, s_cursor = 0, s_end = int (length data)\<rparr>"

text \<open>
  Subscription \<^verbatim>\<open>data[i]\<close> of a Python sequence: a negative index counts from the
  end, and an index outside of both ranges raises \<^verbatim>\<open>IndexError\<close> (here \<open>None\<close>).
\<close>

definition subscript :: "'a list \<Rightarrow> int \<Rightarrow> 'a option" where
  "subscript xs i =
     (if 0 \<le> i \<and> i < int (length xs) then Some (xs ! nat i)
      else if - int (length xs) \<le> i \<and> i < 0 then Some (xs ! nat (int (length xs) + i))
      else None)"

definition peek :: "'a stream \<Rightarrow> 'a error + ('a option \<times> 'a stream)" where
  "peek s =
     (if s_cursor s < 0 \<or> s_cursor s \<ge> s_end s then Inr (None, s)
      else case subscript (s_data s) (s_cursor s) of
             None \<Rightarrow> Inl IndexError
           | Some x \<Rightarrow> Inr (Some x, s))"

definition next' :: "'a stream \<Rightarrow> 'a error + ('a \<times> 'a stream)" where
  "next' s =
     (case subscript (s_data s) (s_cursor s) of
        None \<Rightarrow> Inl IndexError
      | Some x \<Rightarrow> Inr (x, s\<lparr>s_cursor := s_cursor s + 1\<rparr>))"

definition consume :: "'a stream \<Rightarrow> 'a \<Rightarrow> 'a error + 'a stream" where
  "consume s expected =
     (case next' s of
        Inl e \<Rightarrow> Inl e
      | Inr (actual, s1) \<Rightarrow>
          if actual \<noteq> expected then Inl (ValueError (Expected expected actual))
          else Inr s1)"

text \<open>
  The streams the program works on: \<^verbatim>\<open>Stream(data)\<close> and what \<^verbatim>\<open>next\<close> makes of it,
  the only method that assigns a field.
\<close>

inductive reachable :: "'a stream \<Rightarrow> bool" where
  init: "reachable (Stream data)"
| step: "reachable s \<Longrightarrow> next' s = Inr (x, s1) \<Longrightarrow> reachable s1"

code_pred reachable .

text \<open>
  For the proofs: what is left to read, the number of steps a stream can still take, the
  stream with its cursor \<open>n\<close> places on, and the two facts about a stream in use that the
  proofs need (the cursor is not negative, the end is the length of the data).
\<close>

definition remaining :: "'a stream \<Rightarrow> 'a list" where
  "remaining s = drop (nat (s_cursor s)) (s_data s)"

definition togo :: "'a stream \<Rightarrow> nat" where
  "togo s = nat (int (length (s_data s)) - s_cursor s)"

definition move :: "'a stream \<Rightarrow> nat \<Rightarrow> 'a stream" where
  "move s n = s\<lparr>s_cursor := s_cursor s + int n\<rparr>"

definition stream_ok :: "'a stream \<Rightarrow> bool" where
  "stream_ok s = (0 \<le> s_cursor s \<and> s_end s = int (length (s_data s)))"

lemma next_togo:
  "next' s = Inr (x, s1) \<Longrightarrow>
     togo s1 < togo s \<and> s_data s1 = s_data s \<and> s_end s1 = s_end s"
  by (auto simp: next'_def togo_def subscript_def split: option.splits if_splits)

lemma peek_same: "peek s = Inr (x, s1) \<Longrightarrow> s1 = s"
  by (auto simp: peek_def split: option.splits if_splits)

lemma consume_togo:
  "consume s x = Inr s1 \<Longrightarrow> togo s1 < togo s \<and> s_data s1 = s_data s \<and> s_end s1 = s_end s"
  unfolding consume_def
  by (auto split: sum.splits if_splits dest!: next_togo)

section \<open>Tokenizer\<close>

text \<open>
  \<^verbatim>\<open>str.isspace\<close> and \<^verbatim>\<open>str.isnumeric\<close> on the code points below 256: the white
  space is U+0009 to U+000D, U+001C to U+0020, U+0085 and U+00A0; the numeric characters
  are the ten digits, the superscripts U+00B2, U+00B3, U+00B9 and the fractions U+00BC
  to U+00BE.
\<close>

definition isspace :: "char \<Rightarrow> bool" where
  "isspace c =
     (let n = (of_char c :: nat)
      in (9 \<le> n \<and> n \<le> 13) \<or> (28 \<le> n \<and> n \<le> 32) \<or> n = 133 \<or> n = 160)"

definition isdecimal :: "char \<Rightarrow> bool" where
  "isdecimal c = (let n = (of_char c :: nat) in 48 \<le> n \<and> n \<le> 57)"

definition isnumeric :: "char \<Rightarrow> bool" where
  "isnumeric c =
     (let n = (of_char c :: nat)
      in (48 \<le> n \<and> n \<le> 57) \<or> n = 178 \<or> n = 179 \<or> n = 185 \<or> (188 \<le> n \<and> n \<le> 190))"

function skip_whitespace :: "char stream \<Rightarrow> char error + char stream" where
  "skip_whitespace s =
     (case peek s of
        Inl e \<Rightarrow> Inl e
      | Inr (char, s1) \<Rightarrow>
          (case char of
             None \<Rightarrow> Inr s1
           | Some c \<Rightarrow>
               if \<not> isspace c then Inr s1
               else (case next' s1 of
                       Inl e \<Rightarrow> Inl e
                     | Inr (_, s2) \<Rightarrow> skip_whitespace s2)))"
  by pat_completeness auto
termination
  by (relation "measure togo") (auto dest!: peek_same next_togo)

declare skip_whitespace.simps [simp del]

lemma skip_whitespace_togo:
  "skip_whitespace s = Inr s1 \<Longrightarrow>
     togo s1 \<le> togo s \<and> s_data s1 = s_data s \<and> s_end s1 = s_end s"
proof (induction s arbitrary: s1 rule: skip_whitespace.induct)
  case (1 s)
  show ?case
  proof (cases "peek s")
    case (Inl e)
    with "1.prems" show ?thesis by (simp add: skip_whitespace.simps [of s])
  next
    case (Inr p)
    obtain char s' where p: "p = (char, s')" by (cases p)
    with Inr have s': "s' = s" by (auto dest: peek_same)
    show ?thesis
    proof (cases "\<exists>c. char = Some c \<and> isspace c")
      case False
      with "1.prems" Inr p s' show ?thesis
        by (auto simp: skip_whitespace.simps [of s] split: option.splits)
    next
      case True
      then obtain c where c: "char = Some c" "isspace c" by blast
      with "1.prems" Inr p s' obtain x s2 where n: "next' s = Inr (x, s2)" and r: "skip_whitespace s2 = Inr s1"
        by (auto simp: skip_whitespace.simps [of s] split: sum.splits)
      from "1.IH" [OF Inr p [symmetric] c(1) _ _ refl r] c n s'
      have "togo s1 \<le> togo s2 \<and> s_data s1 = s_data s2 \<and> s_end s1 = s_end s2" by simp
      with next_togo [OF n] show ?thesis by simp
    qed
  qed
qed

subsection \<open>Strings\<close>

function tokenize_str_loop :: "char stream \<Rightarrow> string \<Rightarrow> char error + (string \<times> char stream)" where
  "tokenize_str_loop s string =
     (case next' s of
        Inl e \<Rightarrow> Inl e
      | Inr (char, s1) \<Rightarrow>
          if char = CHR 0x22 then Inr (string @ [char], s1)
          else tokenize_str_loop s1 (string @ [char]))"
  by pat_completeness auto
termination
  by (relation "measure (\<lambda>(s, string). togo s)") (auto dest!: next_togo)

declare tokenize_str_loop.simps [simp del]

definition tokenize_str :: "char stream \<Rightarrow> char error + (string \<times> char stream)" where
  "tokenize_str s =
     (case consume s (CHR 0x22) of
        Inl e \<Rightarrow> Inl e
      | Inr s1 \<Rightarrow> tokenize_str_loop s1 [CHR 0x22])"

subsection \<open>Numbers\<close>

text \<open>
  The conversions \<^verbatim>\<open>int\<close> and \<^verbatim>\<open>float\<close> on the texts the number scan can build
  (numeric characters, with one \<open>.\<close> for \<^verbatim>\<open>float\<close> and none for \<^verbatim>\<open>int\<close>): both
  want decimal digits, at least one, and raise \<^verbatim>\<open>ValueError\<close> otherwise. The limit
  that an interpreter may put on the number of digits of an \<^verbatim>\<open>int\<close> is not modelled.
\<close>

definition py_int :: "string \<Rightarrow> char error + token" where
  "py_int text =
     (if text \<noteq> [] \<and> list_all isdecimal text
      then Inr (TInt (foldl (\<lambda>n c. 10 * n + (int (of_char c) - 48)) 0 text))
      else Inl (ValueError (InvalidLiteral text)))"

definition py_float :: "string \<Rightarrow> char error + token" where
  "py_float text =
     (if list_all (\<lambda>c. isdecimal c \<or> c = CHR ''.'') text \<and> list_ex isdecimal text
         \<and> length (filter (\<lambda>c. c = CHR ''.'') text) \<le> 1
      then Inr (TFloat (Float text))
      else Inl (ValueError (InvalidLiteral text)))"

function tokenize_num_loop ::
  "char stream \<Rightarrow> string \<Rightarrow> bool \<Rightarrow> char error + (string \<times> bool \<times> char stream)" where
  "tokenize_num_loop s num is_float =
     (case peek s of
        Inl e \<Rightarrow> Inl e
      | Inr (char, s1) \<Rightarrow>
          (case char of
             None \<Rightarrow> Inl AttributeError
           | Some c \<Rightarrow>
               if isnumeric c then
                 (case next' s1 of
                    Inl e \<Rightarrow> Inl e
                  | Inr (x, s2) \<Rightarrow> tokenize_num_loop s2 (num @ [x]) is_float)
               else if c = CHR ''.'' then
                 (if is_float then Inl (ValueError (InvalidNumeric (s_cursor s1)))
                  else (case next' s1 of
                          Inl e \<Rightarrow> Inl e
                        | Inr (x, s2) \<Rightarrow> tokenize_num_loop s2 (num @ [x]) True))
               else Inr (num, is_float, s1)))"
  by pat_completeness auto
termination
  by (relation "measure (\<lambda>(s, num, is_float). togo s)") (auto dest!: peek_same next_togo)

declare tokenize_num_loop.simps [simp del]

definition tokenize_num :: "char stream \<Rightarrow> char error + (token \<times> char stream)" where
  "tokenize_num s =
     (case tokenize_num_loop s [] False of
        Inl e \<Rightarrow> Inl e
      | Inr (joined, is_float, s1) \<Rightarrow>
          (case (if is_float then py_float joined else py_int joined) of
             Inl e \<Rightarrow> Inl e
           | Inr number \<Rightarrow> Inr (number, s1)))"

subsection \<open>The main loop\<close>

lemma tokenize_str_loop_togo:
  "tokenize_str_loop s string = Inr (text, s1) \<Longrightarrow>
     togo s1 < togo s \<and> s_data s1 = s_data s \<and> s_end s1 = s_end s"
proof (induction s string rule: tokenize_str_loop.induct)
  case (1 s string)
  from "1.prems" obtain char s2 where n: "next' s = Inr (char, s2)"
    by (auto simp: tokenize_str_loop.simps [of s] split: sum.splits)
  show ?case
  proof (cases "char = CHR 0x22")
    case True
    with "1.prems" n have "s1 = s2"
      by (simp add: tokenize_str_loop.simps [of s])
    with next_togo [OF n] show ?thesis by simp
  next
    case False
    with "1.prems" n have "tokenize_str_loop s2 (string @ [char]) = Inr (text, s1)"
      by (simp add: tokenize_str_loop.simps [of s])
    from "1.IH" [OF n refl False this] next_togo [OF n] show ?thesis by simp
  qed
qed

lemma tokenize_str_togo:
  "tokenize_str s = Inr (text, s1) \<Longrightarrow>
     togo s1 < togo s \<and> s_data s1 = s_data s \<and> s_end s1 = s_end s"
  unfolding tokenize_str_def
  by (auto split: sum.splits dest!: consume_togo tokenize_str_loop_togo)

lemma tokenize_num_loop_togo:
  "tokenize_num_loop s num is_float = Inr (joined, fl, s1) \<Longrightarrow>
     togo s1 \<le> togo s \<and> s_data s1 = s_data s \<and> s_end s1 = s_end s"
proof (induction s num is_float rule: tokenize_num_loop.induct)
  case (1 s num is_float)
  from "1.prems" obtain c where p: "peek s = Inr (Some c, s)"
    by (auto simp: tokenize_num_loop.simps [of s] split: sum.splits option.splits
        dest: peek_same)
  consider (digit) "isnumeric c"
    | (point) "\<not> isnumeric c" "c = CHR ''.''" "\<not> is_float"
    | (stop) "\<not> isnumeric c" "c \<noteq> CHR ''.''"
    using "1.prems" p by (auto simp: tokenize_num_loop.simps [of s] split: if_splits)
  then show ?case
  proof cases
    case digit
    with "1.prems" p obtain x s2 where n: "next' s = Inr (x, s2)"
      and r: "tokenize_num_loop s2 (num @ [x]) is_float = Inr (joined, fl, s1)"
      by (auto simp: tokenize_num_loop.simps [of s] split: sum.splits)
    from "1.IH"(1) [OF p refl refl digit n refl r] next_togo [OF n] show ?thesis by simp
  next
    case point
    with "1.prems" p obtain x s2 where n: "next' s = Inr (x, s2)"
      and r: "tokenize_num_loop s2 (num @ [x]) True = Inr (joined, fl, s1)"
      by (auto simp: tokenize_num_loop.simps [of s] split: sum.splits)
    from "1.IH"(2) [OF p refl refl point n refl r] next_togo [OF n] show ?thesis by simp
  next
    case stop
    with "1.prems" p show ?thesis
      by (simp add: tokenize_num_loop.simps [of s])
  qed
qed

lemma tokenize_num_togo:
  assumes "tokenize_num s = Inr (number, s1)" and "peek s = Inr (Some c, s')" and "isnumeric c"
  shows "togo s1 < togo s \<and> s_data s1 = s_data s \<and> s_end s1 = s_end s"
proof -
  from assms(2) have p: "peek s = Inr (Some c, s)" by (auto dest: peek_same)
  from assms(1) obtain joined fl where
    l: "tokenize_num_loop s [] False = Inr (joined, fl, s1)"
    by (auto simp: tokenize_num_def split: sum.splits)
  with p assms(3) obtain x s2 where n: "next' s = Inr (x, s2)"
    and r: "tokenize_num_loop s2 [x] False = Inr (joined, fl, s1)"
    by (auto simp: tokenize_num_loop.simps [of s] split: sum.splits)
  from tokenize_num_loop_togo [OF r] next_togo [OF n] show ?thesis by simp
qed

text \<open>
  One pass through the body of the loop of \<^verbatim>\<open>tokenize\<close>: it leaves the loop
  (\<open>None\<close>), or scans one token, or raises.
\<close>

definition tokenize_step :: "char stream \<Rightarrow> char error + (token option \<times> char stream)" where
  "tokenize_step s =
     (case skip_whitespace s of
        Inl e \<Rightarrow> Inl e
      | Inr s1 \<Rightarrow>
          if s_cursor s1 \<ge> s_end s1 then Inr (None, s1)
          else (case peek s1 of
                  Inl e \<Rightarrow> Inl e
                | Inr (char, s2) \<Rightarrow>
                    (case char of
                       None \<Rightarrow> Inl TypeError
                     | Some c \<Rightarrow>
                         if c \<in> set ''{}[]:,'' then
                           (case next' s2 of
                              Inl e \<Rightarrow> Inl e
                            | Inr (token, s3) \<Rightarrow> Inr (Some (TStr [token]), s3))
                         else if c = CHR 0x22 then
                           (case tokenize_str s2 of
                              Inl e \<Rightarrow> Inl e
                            | Inr (token, s3) \<Rightarrow> Inr (Some (TStr token), s3))
                         else if isnumeric c then
                           (case tokenize_num s2 of
                              Inl e \<Rightarrow> Inl e
                            | Inr (token, s3) \<Rightarrow> Inr (Some token, s3))
                         else Inl (ValueError (UnexpectedChar c (s_cursor s2))))))"

lemma tokenize_step_togo:
  assumes "tokenize_step s = Inr (Some token, s')"
  shows "togo s' < togo s \<and> s_data s' = s_data s \<and> s_end s' = s_end s"
proof -
  from assms obtain s1 where w: "skip_whitespace s = Inr s1"
    by (cases "skip_whitespace s") (auto simp: tokenize_step_def)
  from assms w have ne: "\<not> s_cursor s1 \<ge> s_end s1"
    by (auto simp: tokenize_step_def)
  from assms w ne obtain char where p': "peek s1 = Inr (char, s1)"
    by (cases "peek s1") (auto simp: tokenize_step_def dest: peek_same)
  from assms w ne p' obtain c where p: "peek s1 = Inr (Some c, s1)"
    by (cases char) (auto simp: tokenize_step_def)
  have "togo s' < togo s1 \<and> s_data s' = s_data s1 \<and> s_end s' = s_end s1"
  proof -
    consider (punct) "c \<in> set ''{}[]:,''"
      | (quote) "c \<notin> set ''{}[]:,''" "c = CHR 0x22"
      | (num) "c \<notin> set ''{}[]:,''" "c \<noteq> CHR 0x22" "isnumeric c"
      | (other) "c \<notin> set ''{}[]:,''" "c \<noteq> CHR 0x22" "\<not> isnumeric c"
      by blast
    then show ?thesis
    proof cases
      case punct
      with assms w ne p obtain x where "next' s1 = Inr (x, s')"
        by (cases "next' s1") (auto simp: tokenize_step_def)
      then show ?thesis by (rule next_togo)
    next
      case quote
      with assms w ne p obtain x where "tokenize_str s1 = Inr (x, s')"
        by (cases "tokenize_str s1") (auto simp: tokenize_step_def)
      then show ?thesis by (rule tokenize_str_togo)
    next
      case num
      with assms w ne p obtain x where "tokenize_num s1 = Inr (x, s')"
        by (cases "tokenize_num s1") (auto simp: tokenize_step_def)
      then show ?thesis using p num(3) by (rule tokenize_num_togo)
    next
      case other
      with assms w ne p show ?thesis
        by (auto simp: tokenize_step_def)
    qed
  qed
  with skip_whitespace_togo [OF w] show ?thesis by simp
qed

function tokenize_loop ::
  "char stream \<Rightarrow> token list \<Rightarrow> char error + (token list \<times> char stream)" where
  "tokenize_loop s tokens =
     (case tokenize_step s of
        Inl e \<Rightarrow> Inl e
      | Inr (None, s1) \<Rightarrow> Inr (tokens, s1)
      | Inr (Some token, s1) \<Rightarrow> tokenize_loop s1 (tokens @ [token]))"
  by pat_completeness auto
termination
  by (relation "measure (\<lambda>(s, tokens). togo s)") (auto dest!: tokenize_step_togo)

declare tokenize_loop.simps [simp del]

definition tokenize :: "char stream \<Rightarrow> char error + (token list \<times> char stream)" where
  "tokenize s = tokenize_loop s []"

text \<open>
  The states in which the loop of \<^verbatim>\<open>tokenize\<close> starts a pass on the text \<open>data\<close>,
  with the tokens it has by then: the new stream with no token, and from there on whatever
  a pass that scans a token leads to.
\<close>

inductive loop_state :: "string \<Rightarrow> char stream \<Rightarrow> token list \<Rightarrow> bool" for data where
  first: "loop_state data (Stream data) []"
| again: "loop_state data s tokens \<Longrightarrow> tokenize_step s = Inr (Some token, s1) \<Longrightarrow>
     loop_state data s1 (tokens @ [token])"

code_pred loop_state .

section \<open>Parser\<close>

text \<open>
  The slice \<^verbatim>\<open>[1:-1]\<close> of a text is the text without its first and last character; on
  an \<^verbatim>\<open>int\<close> or a \<^verbatim>\<open>float\<close> it raises \<^verbatim>\<open>TypeError\<close>. (\<^verbatim>\<open>parse_num\<close> of the source
  is called nowhere and is left out.)
\<close>

definition parse_str :: "token stream \<Rightarrow> token error + (string \<times> token stream)" where
  "parse_str s =
     (case next' s of
        Inl e \<Rightarrow> Inl e
      | Inr (token, s1) \<Rightarrow>
          (case token of
             TStr text \<Rightarrow> Inr (butlast (tl text), s1)
           | _ \<Rightarrow> Inl TypeError))"

text \<open>
  The assignment \<^verbatim>\<open>dict_[key] = value\<close>: a key that is present keeps its place and
  takes the new value, a new key goes to the end.
\<close>

fun dict_set :: "(string \<times> 'v) list \<Rightarrow> string \<Rightarrow> 'v \<Rightarrow> (string \<times> 'v) list" where
  "dict_set [] key v = [(key, v)]"
| "dict_set ((k, x) # kvs) key v =
     (if k = key then (k, v) # kvs else (k, x) # dict_set kvs key v)"

text \<open>
  A number is returned as the token it is: the object that \<^verbatim>\<open>stream.next()\<close> hands
  out is the value.
\<close>

fun value_of_token :: "token \<Rightarrow> pyvalue" where
  "value_of_token (TStr text) = VStr text"
| "value_of_token (TInt i) = VInt i"
| "value_of_token (TFloat f) = VFloat f"

function parse_value :: "token stream \<Rightarrow> token error + (pyvalue \<times> token stream)"
  and parse_dict :: "token stream \<Rightarrow> token error + (pyvalue \<times> token stream)"
  and parse_dict_loop ::
    "token stream \<Rightarrow> (string \<times> pyvalue) list \<Rightarrow>
       token error + ((string \<times> pyvalue) list \<times> token stream)"
  and parse_list :: "token stream \<Rightarrow> token error + (pyvalue \<times> token stream)"
  and parse_list_loop ::
    "token stream \<Rightarrow> pyvalue list \<Rightarrow> token error + (pyvalue list \<times> token stream)"
where
  "parse_value s =
     (case peek s of
        Inl e \<Rightarrow> Inl e
      | Inr (token, s1) \<Rightarrow>
          if token = Some (TStr ''{'') then parse_dict s1
          else if token = Some (TStr ''['') then parse_list s1
          else (case token of
                  None \<Rightarrow> Inl TypeError
                | Some (TInt i) \<Rightarrow>
                    (case next' s1 of Inl e \<Rightarrow> Inl e | Inr (x, s2) \<Rightarrow> Inr (value_of_token x, s2))
                | Some (TFloat f) \<Rightarrow>
                    (case next' s1 of Inl e \<Rightarrow> Inl e | Inr (x, s2) \<Rightarrow> Inr (value_of_token x, s2))
                | Some (TStr text) \<Rightarrow>
                    (case text of
                       [] \<Rightarrow> Inl IndexError
                     | c # _ \<Rightarrow>
                         if c = CHR 0x22 then
                           (case parse_str s1 of Inl e \<Rightarrow> Inl e | Inr (x, s2) \<Rightarrow> Inr (VStr x, s2))
                         else Inl (ValueError (UnexpectedJSONValue (TStr text))))))"
| "parse_dict s =
     (case consume s (TStr ''{'') of
        Inl e \<Rightarrow> Inl e
      | Inr s1 \<Rightarrow>
          (case parse_dict_loop s1 [] of
             Inl e \<Rightarrow> Inl e
           | Inr (dict', s2) \<Rightarrow>
               (case consume s2 (TStr ''}'') of
                  Inl e \<Rightarrow> Inl e
                | Inr s3 \<Rightarrow> Inr (VDict dict', s3))))"
| "parse_dict_loop s dict' =
     (case parse_str s of
        Inl e \<Rightarrow> Inl e
      | Inr (key, s1) \<Rightarrow>
          (case consume s1 (TStr '':'') of
             Inl e \<Rightarrow> Inl e
           | Inr s2 \<Rightarrow>
               (case parse_value s2 of
                  Inl e \<Rightarrow> Inl e
                | Inr (v, s3) \<Rightarrow>
                    (case peek s3 of
                       Inl e \<Rightarrow> Inl e
                     | Inr (token, s4) \<Rightarrow>
                         if token = Some (TStr '','') then
                           (case next' s4 of
                              Inl e \<Rightarrow> Inl e
                            | Inr (_, s5) \<Rightarrow> parse_dict_loop s5 (dict_set dict' key v))
                         else Inr (dict_set dict' key v, s4)))))"
| "parse_list s =
     (case consume s (TStr ''['') of
        Inl e \<Rightarrow> Inl e
      | Inr s1 \<Rightarrow>
          (case parse_list_loop s1 [] of
             Inl e \<Rightarrow> Inl e
           | Inr (list', s2) \<Rightarrow>
               (case consume s2 (TStr '']'') of
                  Inl e \<Rightarrow> Inl e
                | Inr s3 \<Rightarrow> Inr (VList list', s3))))"
| "parse_list_loop s list' =
     (case peek s of
        Inl e \<Rightarrow> Inl e
      | Inr (token, s1) \<Rightarrow>
          if token \<noteq> Some (TStr '']'') then
            (case parse_value s1 of
               Inl e \<Rightarrow> Inl e
             | Inr (v, s2) \<Rightarrow>
                 (case peek s2 of
                    Inl e \<Rightarrow> Inl e
                  | Inr (token2, s3) \<Rightarrow>
                      if token2 = Some (TStr '','') then
                        (case next' s3 of
                           Inl e \<Rightarrow> Inl e
                         | Inr (_, s4) \<Rightarrow> parse_list_loop s4 (list' @ [v]))
                      else Inr (list' @ [v], s3)))
          else Inr (list', s1))"
  by pat_completeness auto


lemma parse_str_togo:
  "parse_str s = Inr (x, s1) \<Longrightarrow> togo s1 < togo s \<and> s_data s1 = s_data s \<and> s_end s1 = s_end s"
  unfolding parse_str_def
  by (auto split: sum.splits token.splits dest!: next_togo)


lemma parse_togo_dom:
  "parse_value_parse_dict_parse_dict_loop_parse_list_parse_list_loop_dom (Inl (Inl s)) \<Longrightarrow>
     parse_value s = Inr (v, s') \<Longrightarrow> togo s' < togo s"
  "parse_value_parse_dict_parse_dict_loop_parse_list_parse_list_loop_dom (Inl (Inr s)) \<Longrightarrow>
     parse_dict s = Inr (v, s') \<Longrightarrow> togo s' < togo s"
  "parse_value_parse_dict_parse_dict_loop_parse_list_parse_list_loop_dom (Inr (Inl (s, d))) \<Longrightarrow>
     parse_dict_loop s d = Inr (d', s') \<Longrightarrow> togo s' < togo s"
  "parse_value_parse_dict_parse_dict_loop_parse_list_parse_list_loop_dom (Inr (Inr (Inl s))) \<Longrightarrow>
     parse_list s = Inr (v, s') \<Longrightarrow> togo s' < togo s"
  "parse_value_parse_dict_parse_dict_loop_parse_list_parse_list_loop_dom (Inr (Inr (Inr (s, l)))) \<Longrightarrow>
     parse_list_loop s l = Inr (l', s') \<Longrightarrow> togo s' \<le> togo s"
proof (induction s and s and s d and s and s l arbitrary: v s' and v s' and d' s' and v s' and l' s'
    rule: parse_value_parse_dict_parse_dict_loop_parse_list_parse_list_loop.pinduct)
  case (1 s)
  from "1.prems" "1.hyps" obtain token where p: "peek s = Inr (token, s)"
    by (auto simp: parse_value.psimps split: sum.splits dest: peek_same)
  consider (dict) "token = Some (TStr ''{'')"
    | (list) "token \<noteq> Some (TStr ''{'')" "token = Some (TStr ''['')"
    | (other) "token \<noteq> Some (TStr ''{'')" "token \<noteq> Some (TStr ''['')"
    by blast
  then show ?case
  proof cases
    case dict
    with "1.prems" "1.hyps" p have "parse_dict s = Inr (v, s')"
      by (simp add: parse_value.psimps)
    with "1.IH"(1) [OF p refl dict] show ?thesis .
  next
    case list
    with "1.prems" "1.hyps" p have "parse_list s = Inr (v, s')"
      by (simp add: parse_value.psimps)
    with "1.IH"(2) [OF p refl list] show ?thesis .
  next
    case other
    with "1.prems" "1.hyps" p
    have "(\<exists>x. next' s = Inr (x, s')) \<or> (\<exists>x. parse_str s = Inr (x, s'))"
      by (auto simp: parse_value.psimps split: option.splits token.splits list.splits
          sum.splits if_splits)
    then show ?thesis
      by (auto dest!: next_togo parse_str_togo)
  qed
next
  case (2 s)
  from "2.prems" "2.hyps" obtain s1 d s2 where
    c: "consume s (TStr ''{'') = Inr s1" and l: "parse_dict_loop s1 [] = Inr (d, s2)"
    and e: "consume s2 (TStr ''}'') = Inr s'"
    by (auto simp: parse_dict.psimps split: sum.splits)
  from "2.IH" [OF c l] consume_togo [OF c] consume_togo [OF e] show ?case by simp
next
  case (3 s d)
  from "3.prems" "3.hyps" obtain key s1 s2 v s3 token s4 where
    k: "parse_str s = Inr (key, s1)" and c: "consume s1 (TStr '':'') = Inr s2"
    and v: "parse_value s2 = Inr (v, s3)" and p4: "peek s3 = Inr (token, s4)"
    by (auto simp: parse_dict_loop.psimps split: sum.splits prod.splits)
  from p4 have p: "peek s3 = Inr (token, s3)" by (auto dest: peek_same)
  have a: "togo s3 < togo s"
    using "3.IH"(1) [OF k refl c v] parse_str_togo [OF k] consume_togo [OF c] by simp
  show ?case
  proof (cases "token = Some (TStr '','')")
    case True
    with "3.prems" "3.hyps" k c v p obtain x s5 where
      n: "next' s3 = Inr (x, s5)" and r: "parse_dict_loop s5 (dict_set d key v) = Inr (d', s')"
      by (auto simp: parse_dict_loop.psimps split: sum.splits)
    from "3.IH"(2) [OF k refl c v refl p refl True n refl r] next_togo [OF n] a
    show ?thesis by simp
  next
    case False
    with "3.prems" "3.hyps" k c v p have "s' = s3"
      by (simp add: parse_dict_loop.psimps)
    with a show ?thesis by simp
  qed
next
  case (4 s)
  from "4.prems" "4.hyps" obtain s1 d s2 where
    c: "consume s (TStr ''['') = Inr s1" and l: "parse_list_loop s1 [] = Inr (d, s2)"
    and e: "consume s2 (TStr '']'') = Inr s'"
    by (auto simp: parse_list.psimps split: sum.splits)
  from "4.IH" [OF c l] consume_togo [OF c] consume_togo [OF e] show ?case by simp
next
  case (5 s l)
  from "5.prems" "5.hyps" obtain token where p: "peek s = Inr (token, s)"
    by (auto simp: parse_list_loop.psimps split: sum.splits dest: peek_same)
  show ?case
  proof (cases "token \<noteq> Some (TStr '']'')")
    case False
    with "5.prems" "5.hyps" p show ?thesis
      by (simp add: parse_list_loop.psimps)
  next
    case True
    with "5.prems" "5.hyps" p obtain v s2 token2 s3 where
      v: "parse_value s = Inr (v, s2)" and p3: "peek s2 = Inr (token2, s3)"
      by (auto simp: parse_list_loop.psimps split: sum.splits prod.splits)
    from p3 have p2: "peek s2 = Inr (token2, s2)" by (auto dest: peek_same)
    have a: "togo s2 < togo s" using "5.IH"(1) [OF p refl True v] .
    show ?thesis
    proof (cases "token2 = Some (TStr '','')")
      case c: True
      with "5.prems" "5.hyps" p True v p2 obtain x s4 where
        n: "next' s2 = Inr (x, s4)" and r: "parse_list_loop s4 (l @ [v]) = Inr (l', s')"
        by (auto simp: parse_list_loop.psimps split: sum.splits)
      from "5.IH"(2) [OF p refl True v refl p2 refl c n refl r] next_togo [OF n] a
      show ?thesis by simp
    next
      case c: False
      with "5.prems" "5.hyps" p True v p2 have "s' = s2"
        by (simp add: parse_list_loop.psimps)
      with a show ?thesis by simp
    qed
  qed
qed

termination parse_value
proof (relation "measures [\<lambda>x. case x of
      Inl (Inl s) \<Rightarrow> togo s | Inl (Inr s) \<Rightarrow> togo s | Inr (Inl (s, d)) \<Rightarrow> togo s
    | Inr (Inr (Inl s)) \<Rightarrow> togo s | Inr (Inr (Inr (s, l))) \<Rightarrow> togo s,
    \<lambda>x. case x of
      Inl (Inl s) \<Rightarrow> 1 | Inl (Inr s) \<Rightarrow> 0 | Inr (Inl (s, d)) \<Rightarrow> 0
    | Inr (Inr (Inl s)) \<Rightarrow> 0 | Inr (Inr (Inr (s, l))) \<Rightarrow> 2]", goal_cases)
  case 1
  then show ?case by simp
next
  case (2 s b x y)
  then show ?case by (auto dest: peek_same)
next
  case (3 s b x y)
  then show ?case by (auto dest: peek_same)
next
  case (4 s b)
  then show ?case by (auto dest: consume_togo)
next
  case (5 s dict' b x y ba)
  then show ?case by (auto dest!: consume_togo parse_str_togo)
next
  case (6 s dict' b x y ba bb xa ya bc xb yb bd xba yc)
  then have "togo ya < togo ba" using parse_togo_dom(1) [of ba xa ya] by simp
  with 6 show ?case by (auto dest!: consume_togo parse_str_togo next_togo peek_same)
next
  case (7 s b)
  then show ?case by (auto dest: consume_togo)
next
  case (8 s list' b x y)
  then show ?case by (auto dest: peek_same)
next
  case (9 s list' b x y ba xa ya bb xb yb bc xc yc)
  then have "togo ya < togo y" using parse_togo_dom(1) [of y xa ya] by simp
  with 9 show ?case by (auto dest!: next_togo peek_same)
qed

declare parse_value.simps [simp del] parse_dict.simps [simp del] parse_dict_loop.simps [simp del]
  parse_list.simps [simp del] parse_list_loop.simps [simp del]

definition parse :: "token stream \<Rightarrow> token error + (pyvalue \<times> token stream)" where
  "parse s =
     (case peek s of
        Inl e \<Rightarrow> Inl e
      | Inr (token, s1) \<Rightarrow>
          (case (if token = Some (TStr ''{'') then parse_dict s1
                 else if token = Some (TStr ''['') then parse_list s1
                 else Inl (ValueError (UnexpectedTokenNumber (s_cursor s1)))) of
             Inl e \<Rightarrow> Inl e
           | Inr (tree, s2) \<Rightarrow>
               if s_cursor s2 < s_end s2 then
                 (case peek s2 of
                    Inl e \<Rightarrow> Inl e
                  | Inr (t, s3) \<Rightarrow> Inl (ValueError (UnexpectedTokenAtEnd t)))
               else Inr (tree, s2)))"

text \<open>
  For the proofs: what \<^verbatim>\<open>parse_value\<close> makes of a token that opens no object and no
  array.
\<close>

fun scalar :: "token \<Rightarrow> token error + pyvalue" where
  "scalar (TInt i) = Inr (VInt i)"
| "scalar (TFloat f) = Inr (VFloat f)"
| "scalar (TStr []) = Inl IndexError"
| "scalar (TStr (c # cs)) =
     (if c = CHR 0x22 then Inr (VStr (butlast cs))
      else Inl (ValueError (UnexpectedJSONValue (TStr (c # cs)))))"

text \<open>
  For the statements about objects: a token list \<open>vs\<close> that \<^verbatim>\<open>parse_value\<close> reads to its
  end as the value \<open>x\<close>; the tokens of the entries of an object (each a key token, its
  value's tokens and the value), with a colon after each key and a comma between two
  entries; the keys, as the slice makes them, with their values; and the assignments of a
  list of keys and values to a \<^verbatim>\<open>dict\<close>, one after the other.
\<close>

definition reads :: "token list \<Rightarrow> pyvalue \<Rightarrow> bool" where
  "reads vs x =
     (case parse_value (Stream vs) of
        Inl e \<Rightarrow> False
      | Inr (y, s') \<Rightarrow> y = x \<and> \<not> s_cursor s' < s_end s')"

fun entries_tokens :: "(string \<times> token list \<times> pyvalue) list \<Rightarrow> token list" where
  "entries_tokens [] = []"
| "entries_tokens [(q, vs, x)] = TStr q # TStr '':'' # vs"
| "entries_tokens ((q, vs, x) # e # es) =
     TStr q # TStr '':'' # vs @ TStr '','' # entries_tokens (e # es)"

definition entries_pairs ::
  "(string \<times> token list \<times> pyvalue) list \<Rightarrow> (string \<times> pyvalue) list" where
  "entries_pairs es = map (\<lambda>(q, vs, x). (butlast (tl q), x)) es"

fun dict_set_all :: "(string \<times> 'v) list \<Rightarrow> (string \<times> 'v) list \<Rightarrow> (string \<times> 'v) list" where
  "dict_set_all d [] = d"
| "dict_set_all d ((k, v) # ps) = dict_set_all (dict_set d k v) ps"

section \<open>Main\<close>

text \<open>
  What \<^verbatim>\<open>main\<close> does between reading the file and printing the tree: an exception of
  the tokenizer is \<open>Inl\<close>, one of the parser is \<open>Inr (Inl _)\<close>, and the tree is
  \<open>Inr (Inr _)\<close>.
\<close>

definition main :: "string \<Rightarrow> char error + token error + pyvalue" where
  "main data =
     (case tokenize (Stream data) of
        Inl e \<Rightarrow> Inl e
      | Inr (tokens, _) \<Rightarrow>
          (case parse (Stream tokens) of
             Inl e \<Rightarrow> Inr (Inl e)
           | Inr (tree, _) \<Rightarrow> Inr (Inr tree)))"

section \<open>Properties of the stream\<close>

lemma stream_ok_Stream: "stream_ok (Stream data)"
  by (simp add: stream_ok_def Stream_def)

lemma remaining_Stream: "remaining (Stream data) = data"
  by (simp add: remaining_def Stream_def)

lemma move_0: "move s 0 = s"
  by (simp add: move_def)

lemma move_move: "move (move s a) b = move s (a + b)"
  by (simp add: move_def)

lemma stream_ok_move: "stream_ok s \<Longrightarrow> stream_ok (move s n)"
  by (simp add: stream_ok_def move_def)

lemma remaining_move: "stream_ok s \<Longrightarrow> remaining (move s n) = drop n (remaining s)"
  by (simp add: stream_ok_def move_def remaining_def nat_add_distrib add.commute)

lemma move_fields:
  "s_data (move s n) = s_data s" "s_end (move s n) = s_end s"
  "s_cursor (move s n) = s_cursor s + int n"
  by (simp_all add: move_def)

lemma cursor_before_end: "stream_ok s \<Longrightarrow> (s_cursor s < s_end s) = (remaining s \<noteq> [])"
  by (auto simp: stream_ok_def remaining_def)

lemma subscript_ok:
  "stream_ok s \<Longrightarrow>
     subscript (s_data s) (s_cursor s) = (case remaining s of [] \<Rightarrow> None | x # _ \<Rightarrow> Some x)"
  by (auto simp: stream_ok_def remaining_def subscript_def hd_drop_conv_nth
      split: list.splits dest: arg_cong [where f = hd])

lemma peek_ok:
  "stream_ok s \<Longrightarrow> peek s = Inr (case remaining s of [] \<Rightarrow> None | x # _ \<Rightarrow> Some x, s)"
proof -
  assume ok: "stream_ok s"
  then have "0 \<le> s_cursor s" by (simp add: stream_ok_def)
  with ok cursor_before_end [OF ok] show ?thesis
    by (cases "remaining s") (auto simp: peek_def subscript_ok)
qed

lemma next_ok:
  "stream_ok s \<Longrightarrow>
     next' s = (case remaining s of [] \<Rightarrow> Inl IndexError | x # _ \<Rightarrow> Inr (x, move s 1))"
  by (simp add: next'_def subscript_ok move_def split: list.splits)

lemma consume_ok:
  "stream_ok s \<Longrightarrow>
     consume s expected =
       (case remaining s of
          [] \<Rightarrow> Inl IndexError
        | x # _ \<Rightarrow> if x \<noteq> expected then Inl (ValueError (Expected expected x))
                  else Inr (move s 1))"
  by (simp add: consume_def next_ok split: list.splits)

lemma parse_str_ok:
  "stream_ok s \<Longrightarrow>
     parse_str s =
       (case remaining s of
          [] \<Rightarrow> Inl IndexError
        | TStr text # _ \<Rightarrow> Inr (butlast (tl text), move s 1)
        | _ \<Rightarrow> Inl TypeError)"
  by (simp add: parse_str_def next_ok split: list.splits token.splits)

lemma reachable_bounds:
  "reachable s \<Longrightarrow> 0 \<le> s_cursor s \<and> s_cursor s \<le> s_end s \<and> s_end s = int (length (s_data s))"
  by (induction rule: reachable.induct)
    (auto simp: Stream_def next'_def subscript_def split: if_splits)

lemma reachable_ok: "reachable s \<Longrightarrow> stream_ok s"
  by (simp add: stream_ok_def reachable_bounds)

text \<open>
  C9. In every state that a stream can be in, \<^verbatim>\<open>peek\<close> raises nothing and returns the
  stream as it was, with the element at the cursor when the cursor is before the end and
  with \<^verbatim>\<open>None\<close> when it is at the end; the cursor is never negative and never beyond
  the end, so that the element read is one of the data.
\<close>

theorem peek_never_fails:
  "reachable s \<Longrightarrow>
     peek s = Inr (if s_cursor s < s_end s then Some (s_data s ! nat (s_cursor s)) else None, s)
     \<and> 0 \<le> s_cursor s \<and> s_cursor s \<le> s_end s \<and> s_end s = int (length (s_data s))"
proof -
  assume "reachable s"
  then have "0 \<le> s_cursor s \<and> s_cursor s \<le> s_end s \<and> s_end s = int (length (s_data s))"
    by (rule reachable_bounds)
  then show ?thesis
    by (auto simp: peek_def subscript_def)
qed

theorem peek_never_fails_witness:
  "peek \<lparr>s_data = ''ab'', s_cursor = 1, s_end = 2\<rparr>
     = Inr (Some CHR ''b'', \<lparr>s_data = ''ab'', s_cursor = 1, s_end = 2\<rparr>)
   \<and> peek \<lparr>s_data = ''ab'', s_cursor = 2, s_end = 2\<rparr>
     = Inr (None, \<lparr>s_data = ''ab'', s_cursor = 2, s_end = 2\<rparr>)"
proof -
  have r0: "reachable (Stream ''ab'')" by (rule reachable.init)
  have n1: "next' (Stream ''ab'') = Inr (CHR ''a'', \<lparr>s_data = ''ab'', s_cursor = 1, s_end = 2\<rparr>)"
    by (simp add: next'_def Stream_def subscript_def)
  have r1: "reachable \<lparr>s_data = ''ab'', s_cursor = 1, s_end = 2\<rparr>"
    by (rule reachable.step [OF r0 n1])
  have n2: "next' \<lparr>s_data = ''ab'', s_cursor = 1, s_end = 2\<rparr>
      = Inr (CHR ''b'', \<lparr>s_data = ''ab'', s_cursor = 2, s_end = 2\<rparr>)"
    by (simp add: next'_def subscript_def)
  have r2: "reachable \<lparr>s_data = ''ab'', s_cursor = 2, s_end = 2\<rparr>"
    by (rule reachable.step [OF r1 n2])
  from peek_never_fails [OF r1] peek_never_fails [OF r2] show ?thesis by simp
qed

section \<open>Properties of the parser\<close>

text \<open>
  C4. The two tokens of \<^verbatim>\<open>{}\<close> do not parse to an empty object. After the opening
  brace, \<^verbatim>\<open>parse_dict\<close> reads the closing brace as a key, which the slice turns into the
  empty text, and the colon it wants next is beyond the end of the tokens: the parse ends
  in \<^verbatim>\<open>IndexError\<close>.
\<close>

theorem empty_object_fails:
  "parse (Stream [TStr ''{'', TStr ''}'']) = Inl IndexError
   \<and> consume (Stream [TStr ''{'', TStr ''}'']) (TStr ''{'')
       = Inr \<lparr>s_data = [TStr ''{'', TStr ''}''], s_cursor = 1, s_end = 2\<rparr>
   \<and> parse_str \<lparr>s_data = [TStr ''{'', TStr ''}''], s_cursor = 1, s_end = 2\<rparr>
       = Inr ('''', \<lparr>s_data = [TStr ''{'', TStr ''}''], s_cursor = 2, s_end = 2\<rparr>)
   \<and> consume \<lparr>s_data = [TStr ''{'', TStr ''}''], s_cursor = 2, s_end = 2\<rparr> (TStr '':'')
       = Inl IndexError
   \<and> tokenize (Stream ''{}'')
       = Inr ([TStr ''{'', TStr ''}''], \<lparr>s_data = ''{}'', s_cursor = 2, s_end = 2\<rparr>)
   \<and> main ''{}'' = Inr (Inl IndexError)"
  by code_simp

lemma dict_set_twice: "dict_set (dict_set d k v1) k v2 = dict_set d k v2"
  by (induction d k v1 rule: dict_set.induct) auto

lemma dict_set_keys:
  "map fst (dict_set d k v) = (if k \<in> set (map fst d) then map fst d else map fst d @ [k])"
  by (induction d k v rule: dict_set.induct) auto

lemma dict_set_lookup: "map_of (dict_set d k v) k = Some v"
  by (induction d k v rule: dict_set.induct) auto

lemma dict_set_other: "k' \<noteq> k \<Longrightarrow> map_of (dict_set d k v) k' = map_of d k'"
  by (induction d k v rule: dict_set.induct) auto

lemma dict_set_distinct: "distinct (map fst d) \<Longrightarrow> distinct (map fst (dict_set d k v))"
  by (simp add: dict_set_keys)

lemma parse_same_key_twice:
  "parse (Stream [TStr ''{'', TStr q, TStr '':'', TInt i, TStr '','', TStr q, TStr '':'',
                  TInt j, TStr ''}''])
     = Inr (VDict [(butlast (tl q), VInt j)],
            \<lparr>s_data = [TStr ''{'', TStr q, TStr '':'', TInt i, TStr '','', TStr q, TStr '':'',
                        TInt j, TStr ''}''], s_cursor = 9, s_end = 9\<rparr>)"
  by (simp add: parse_def Stream_def peek_def next'_def subscript_def consume_def parse_str_def
      parse_dict.simps parse_dict_loop.simps parse_value.simps)

lemma main_same_key_twice:
  \<open>main ''{"a":1,"a":2}'' = Inr (Inr (VDict [(''a'', VInt 2)]))\<close>
  by code_simp

text \<open>
  C3, at the end of the tokens. \<^verbatim>\<open>peek\<close> returns \<^verbatim>\<open>None\<close> there, which is no brace,
  no bracket and no number, and \<^verbatim>\<open>parse_value\<close> subscripts it: the exception is
  \<^verbatim>\<open>TypeError\<close>, not the \<^verbatim>\<open>ValueError\<close> for an unexpected value. The text \<^verbatim>\<open>[\<close>
  gets there.
\<close>

theorem parse_value_at_end:
  "parse_value (Stream []) = Inl TypeError \<and> main ''['' = Inr (Inl TypeError)"
  by code_simp

subsection \<open>The parser on a stream in use\<close>

lemma consume_Inr:
  assumes "stream_ok s" and "consume s e = Inr s1"
  obtains r where "remaining s = e # r" and "s1 = move s 1"
  using assms by (cases "remaining s") (auto simp: consume_ok split: if_splits)

lemma consume_Cons: "stream_ok s \<Longrightarrow> remaining s = e # r \<Longrightarrow> consume s e = Inr (move s 1)"
  by (simp add: consume_ok)

lemma peek_Cons: "stream_ok s \<Longrightarrow> remaining s = x # r \<Longrightarrow> peek s = Inr (Some x, s)"
  by (simp add: peek_ok)

lemma peek_Nil: "stream_ok s \<Longrightarrow> remaining s = [] \<Longrightarrow> peek s = Inr (None, s)"
  by (simp add: peek_ok)

lemma next_Cons: "stream_ok s \<Longrightarrow> remaining s = x # r \<Longrightarrow> next' s = Inr (x, move s 1)"
  by (simp add: next_ok)

lemma parse_dict_Inr:
  assumes "parse_dict s = Inr (v, s')"
  obtains s1 d s2 where "consume s (TStr ''{'') = Inr s1" and "parse_dict_loop s1 [] = Inr (d, s2)"
    and "consume s2 (TStr ''}'') = Inr s'" and "v = VDict d"
  using assms by (auto simp: parse_dict.simps [of s] split: sum.splits)

lemma parse_list_Inr:
  assumes "parse_list s = Inr (v, s')"
  obtains s1 l s2 where "consume s (TStr ''['') = Inr s1" and "parse_list_loop s1 [] = Inr (l, s2)"
    and "consume s2 (TStr '']'') = Inr s'" and "v = VList l"
  using assms by (auto simp: parse_list.simps [of s] split: sum.splits)

lemma parse_value_ok:
  "stream_ok s \<Longrightarrow>
     parse_value s =
       (case remaining s of
          [] \<Rightarrow> Inl TypeError
        | x # _ \<Rightarrow>
            if x = TStr ''{'' then parse_dict s
            else if x = TStr ''['' then parse_list s
            else (case scalar x of Inl e \<Rightarrow> Inl e | Inr v \<Rightarrow> Inr (v, move s 1)))"
  by (cases "remaining s")
    (auto simp: parse_value.simps [of s] peek_ok next_ok parse_str_ok
      split: token.splits list.splits)

lemma parse_Inr:
  assumes "parse s = Inr (v, s')"
  shows "parse_dict s = Inr (v, s') \<or> parse_list s = Inr (v, s')"
proof -
  from assms obtain token s1 where p: "peek s = Inr (token, s1)"
    by (cases "peek s") (auto simp: parse_def)
  then have [simp]: "s1 = s" by (rule peek_same)
  from assms p show ?thesis
    by (auto simp: parse_def split: if_splits sum.splits)
qed

text \<open>
  C8. \<^verbatim>\<open>parse\<close> raises its \<^verbatim>\<open>ValueError\<close> on the empty token list and on every
  token list whose first token is neither \<^verbatim>\<open>{\<close> nor \<^verbatim>\<open>[\<close>; and a tree that \<^verbatim>\<open>parse\<close>
  returns, on whatever stream, is an object or an array.
\<close>

theorem top_level_object_or_array:
  "parse (Stream []) = Inl (ValueError (UnexpectedTokenNumber 0))
   \<and> (x \<noteq> TStr ''{'' \<and> x \<noteq> TStr ''['' \<longrightarrow>
        parse (Stream (x # ts)) = Inl (ValueError (UnexpectedTokenNumber 0)))
   \<and> (parse s = Inr (v, s') \<longrightarrow> (\<exists>d. v = VDict d) \<or> (\<exists>l. v = VList l))"
proof (intro conjI impI)
  show "parse (Stream []) = Inl (ValueError (UnexpectedTokenNumber 0))"
    by (simp add: parse_def peek_ok stream_ok_Stream remaining_Stream) (simp add: Stream_def)
next
  assume "x \<noteq> TStr ''{'' \<and> x \<noteq> TStr ''[''"
  then show "parse (Stream (x # ts)) = Inl (ValueError (UnexpectedTokenNumber 0))"
    by (simp add: parse_def peek_ok stream_ok_Stream remaining_Stream) (simp add: Stream_def)
next
  assume "parse s = Inr (v, s')"
  then have "parse_dict s = Inr (v, s') \<or> parse_list s = Inr (v, s')" by (rule parse_Inr)
  then show "(\<exists>d. v = VDict d) \<or> (\<exists>l. v = VList l)"
    by (auto elim: parse_dict_Inr parse_list_Inr)
qed

theorem top_level_object_or_array_witness:
  "parse (Stream [TInt 5]) = Inl (ValueError (UnexpectedTokenNumber 0))
   \<and> parse (Stream [TStr ''abc'']) = Inl (ValueError (UnexpectedTokenNumber 0))
   \<and> parse (Stream [TStr ''['', TInt 5, TStr '']''])
       = Inr (VList [VInt 5], \<lparr>s_data = [TStr ''['', TInt 5, TStr '']''], s_cursor = 3, s_end = 3\<rparr>)"
proof -
  have p: "parse (Stream [TStr ''['', TInt 5, TStr '']''])
       = Inr (VList [VInt 5], \<lparr>s_data = [TStr ''['', TInt 5, TStr '']''], s_cursor = 3, s_end = 3\<rparr>)"
    by code_simp
  from top_level_object_or_array [of "TInt 5" "[]" "Stream [TStr ''['', TInt 5, TStr '']'']"
      "VList [VInt 5]" "\<lparr>s_data = [TStr ''['', TInt 5, TStr '']''], s_cursor = 3, s_end = 3\<rparr>"]
    top_level_object_or_array [of "TStr ''abc''" "[]"] p
  show ?thesis by simp
qed

subsection \<open>A run depends on the tokens it reads\<close>

lemma drop_Cons_less: "drop n xs = y # ys \<Longrightarrow> n < length xs"
  by (cases "n < length xs") auto

lemma parse_str_Inr:
  assumes "stream_ok s" and "parse_str s = Inr (key, s1)"
  obtains str r where "remaining s = TStr str # r" and "key = butlast (tl str)"
    and "s1 = move s 1"
  using assms
  by (cases "remaining s") (auto simp: parse_str_ok split: token.splits)

text \<open>
  A successful run of the parser reads a number of tokens and depends on nothing else:
  on any other stream whose next tokens are the same, it returns the same value after the
  same number of tokens. The two loops look at one token more, the one that ends them.
\<close>

lemma parse_sim:
  fixes ex :: "token list"
  shows "stream_ok s \<Longrightarrow> stream_ok t \<Longrightarrow> remaining t = remaining s @ ex \<Longrightarrow>
      parse_value s = Inr (v, s') \<Longrightarrow>
      \<exists>n. n \<le> length (remaining s) \<and> s' = move s n \<and> parse_value t = Inr (v, move t n)"
    and "stream_ok s \<Longrightarrow> stream_ok t \<Longrightarrow> remaining t = remaining s @ ex \<Longrightarrow>
      parse_dict s = Inr (v, s') \<Longrightarrow>
      \<exists>n. n \<le> length (remaining s) \<and> s' = move s n \<and> parse_dict t = Inr (v, move t n)"
    and "stream_ok s \<Longrightarrow> stream_ok t \<Longrightarrow> remaining t = remaining s @ ex \<Longrightarrow>
      parse_dict_loop s d = Inr (d', s') \<Longrightarrow>
      \<exists>n. n \<le> length (remaining s) \<and> s' = move s n
        \<and> (n < length (remaining s) \<longrightarrow> parse_dict_loop t d = Inr (d', move t n))"
    and "stream_ok s \<Longrightarrow> stream_ok t \<Longrightarrow> remaining t = remaining s @ ex \<Longrightarrow>
      parse_list s = Inr (v, s') \<Longrightarrow>
      \<exists>n. n \<le> length (remaining s) \<and> s' = move s n \<and> parse_list t = Inr (v, move t n)"
    and "stream_ok s \<Longrightarrow> stream_ok t \<Longrightarrow> remaining t = remaining s @ ex \<Longrightarrow>
      parse_list_loop s l = Inr (l', s') \<Longrightarrow>
      \<exists>n. n \<le> length (remaining s) \<and> s' = move s n
        \<and> (n < length (remaining s) \<longrightarrow> parse_list_loop t l = Inr (l', move t n))"
proof (induction s and s and s d and s and s l
    arbitrary: t v s' and t v s' and t d' s' and t v s' and t l' s'
    rule: parse_value_parse_dict_parse_dict_loop_parse_list_parse_list_loop.induct)
  case (1 s)
  note ok = "1.prems"(1) and okt = "1.prems"(2) and rel = "1.prems"(3) and run = "1.prems"(4)
  from run ok obtain x r where r: "remaining s = x # r"
    by (cases "remaining s") (auto simp: parse_value_ok)
  with rel have rt: "remaining t = x # (r @ ex)" by simp
  from ok r have p: "peek s = Inr (Some x, s)" by (rule peek_Cons)
  consider (dict) "x = TStr ''{''" | (list) "x \<noteq> TStr ''{''" "x = TStr ''[''"
    | (other) "x \<noteq> TStr ''{''" "x \<noteq> TStr ''[''"
    by blast
  then show ?case
  proof cases
    case dict
    with run ok r have "parse_dict s = Inr (v, s')" by (simp add: parse_value_ok)
    from "1.IH"(1) [OF p refl _ ok okt rel this] dict
    obtain n where "n \<le> length (remaining s)" "s' = move s n" "parse_dict t = Inr (v, move t n)"
      by auto
    moreover from okt rt dict have "parse_value t = parse_dict t" by (simp add: parse_value_ok)
    ultimately show ?thesis by auto
  next
    case list
    with run ok r have "parse_list s = Inr (v, s')" by (simp add: parse_value_ok)
    from "1.IH"(2) [OF p refl _ _ ok okt rel this] list
    obtain n where "n \<le> length (remaining s)" "s' = move s n" "parse_list t = Inr (v, move t n)"
      by auto
    moreover from okt rt list have "parse_value t = parse_list t" by (simp add: parse_value_ok)
    ultimately show ?thesis by auto
  next
    case other
    with run ok r have sc: "scalar x = Inr v" and s': "s' = move s 1"
      by (auto simp: parse_value_ok split: sum.splits)
    with okt rt other have "parse_value t = Inr (v, move t 1)" by (simp add: parse_value_ok)
    with r s' show ?thesis by (intro exI [of _ 1]) simp
  qed
next
  case (2 s)
  note ok = "2.prems"(1) and okt = "2.prems"(2) and rel = "2.prems"(3) and run = "2.prems"(4)
  from run obtain s1 d s2 where c1: "consume s (TStr ''{'') = Inr s1"
    and l: "parse_dict_loop s1 [] = Inr (d, s2)"
    and c2: "consume s2 (TStr ''}'') = Inr s'" and v: "v = VDict d"
    by (rule parse_dict_Inr)
  from ok c1 obtain r where r: "remaining s = TStr ''{'' # r" and s1: "s1 = move s 1"
    by (rule consume_Inr)
  from ok s1 have ok1: "stream_ok s1" by (simp add: stream_ok_move)
  from okt have okt1: "stream_ok (move t 1)" by (rule stream_ok_move)
  from ok r s1 have r1: "remaining s1 = r" by (simp add: remaining_move)
  from okt rel r r1 have rt1: "remaining (move t 1) = remaining s1 @ ex"
    by (simp add: remaining_move)
  from "2.IH" [OF c1 ok1 okt1 rt1 l] obtain n where n: "n \<le> length (remaining s1)"
    and s2: "s2 = move s1 n"
    and tl: "n < length (remaining s1) \<longrightarrow>
      parse_dict_loop (move t 1) [] = Inr (d, move (move t 1) n)"
    by auto
  from ok1 s2 have ok2: "stream_ok s2" by (simp add: stream_ok_move)
  from ok2 c2 obtain r2 where r2: "remaining s2 = TStr ''}'' # r2" and s': "s' = move s2 1"
    by (rule consume_Inr)
  from ok1 s2 r1 r2 have d: "drop n r = TStr ''}'' # r2" by (simp add: remaining_move)
  then have less: "n < length r" by (rule drop_Cons_less)
  with tl r1 have tl': "parse_dict_loop (move t 1) [] = Inr (d, move t (1 + n))"
    by (simp add: move_move)
  from okt have okt2: "stream_ok (move t (1 + n))" by (rule stream_ok_move)
  from okt rel r d less have "remaining (move t (1 + n)) = TStr ''}'' # (r2 @ ex)"
    by (simp add: remaining_move)
  with okt2 have "consume (move t (1 + n)) (TStr ''}'') = Inr (move (move t (1 + n)) 1)"
    by (rule consume_Cons)
  with okt rel r tl' v have "parse_dict t = Inr (v, move t (n + 2))"
    by (simp add: parse_dict.simps [of t] consume_ok move_move add.commute)
  moreover from s' s2 s1 have "s' = move s (n + 2)" by (simp add: move_move)
  moreover from r less have "n + 2 \<le> length (remaining s)" by simp
  ultimately show ?case by blast
next
  case (3 s d)
  note ok = "3.prems"(1) and okt = "3.prems"(2) and rel = "3.prems"(3) and run = "3.prems"(4)
  from run obtain key s1 where k: "parse_str s = Inr (key, s1)"
    by (cases "parse_str s") (auto simp: parse_dict_loop.simps [of s])
  from run k obtain s2 where c: "consume s1 (TStr '':'') = Inr s2"
    by (cases "consume s1 (TStr '':'')") (auto simp: parse_dict_loop.simps [of s])
  from run k c obtain v s3 where pv: "parse_value s2 = Inr (v, s3)"
    by (cases "parse_value s2") (auto simp: parse_dict_loop.simps [of s])
  from ok k obtain str r where r: "remaining s = TStr str # r"
    and key: "key = butlast (tl str)" and s1: "s1 = move s 1"
    by (rule parse_str_Inr)
  from ok s1 have ok1: "stream_ok s1" by (simp add: stream_ok_move)
  from ok1 c obtain r' where r1: "remaining s1 = TStr '':'' # r'" and s2: "s2 = move s1 1"
    by (rule consume_Inr)
  from ok1 s2 have ok2: "stream_ok s2" by (simp add: stream_ok_move)
  from ok r s1 r1 have rr: "r = TStr '':'' # r'" by (simp add: remaining_move)
  from ok1 r1 s2 have r2: "remaining s2 = r'" by (simp add: remaining_move)
  define t1 where "t1 = move t 1"
  define t2 where "t2 = move t1 1"
  from okt have okt1: "stream_ok t1" and okt2: "stream_ok t2"
    by (simp_all add: t1_def t2_def stream_ok_move)
  from okt rel r rr have rt: "remaining t = TStr str # TStr '':'' # (r' @ ex)" by simp
  with okt have rt1: "remaining t1 = TStr '':'' # (r' @ ex)"
    by (simp add: t1_def remaining_move)
  with okt1 have rt2: "remaining t2 = remaining s2 @ ex"
    by (simp add: t2_def remaining_move r2)
  from okt rt key have kt: "parse_str t = Inr (key, t1)"
    by (simp add: parse_str_ok t1_def)
  from okt1 rt1 have ct: "consume t1 (TStr '':'') = Inr t2"
    by (simp add: consume_ok t2_def)
  from "3.IH"(1) [OF k refl c ok2 okt2 rt2 pv] obtain n1 where
    n1: "n1 \<le> length (remaining s2)" and s3: "s3 = move s2 n1"
    and pvt: "parse_value t2 = Inr (v, move t2 n1)"
    by auto
  define t3 where "t3 = move t2 n1"
  from ok2 s3 have ok3: "stream_ok s3" by (simp add: stream_ok_move)
  from okt2 have okt3: "stream_ok t3" by (simp add: t3_def stream_ok_move)
  from ok2 okt2 rt2 n1 s3 have rt3: "remaining t3 = remaining s3 @ ex"
    by (simp add: t3_def remaining_move)
  from s3 s2 s1 have s3': "s3 = move s (n1 + 2)" by (simp add: move_move)
  have t3': "t3 = move t (n1 + 2)" by (simp add: t3_def t2_def t1_def move_move)
  from ok s3' have len3: "length (remaining s3) = length (remaining s) - (n1 + 2)"
    by (simp add: remaining_move)
  from r rr r2 n1 have n1': "n1 + 2 \<le> length (remaining s)" by simp
  show ?case
  proof (cases "remaining s3")
    case Nil
    from ok3 Nil have "peek s3 = Inr (None, s3)" by (rule peek_Nil)
    with run k c pv have "d' = dict_set d key v" and "s' = s3"
      by (simp_all add: parse_dict_loop.simps [of s])
    with Nil len3 n1' s3' show ?thesis by (intro exI [of _ "n1 + 2"]) simp
  next
    case (Cons y r3)
    from ok3 Cons have p3: "peek s3 = Inr (Some y, s3)" by (rule peek_Cons)
    from Cons rt3 have rt3': "remaining t3 = y # (r3 @ ex)" by simp
    with okt3 have pt3: "peek t3 = Inr (Some y, t3)" by (rule peek_Cons)
    show ?thesis
    proof (cases "y = TStr '',''")
      case False
      with run k c pv p3 have "d' = dict_set d key v" and "s' = s3"
        by (simp_all add: parse_dict_loop.simps [of s])
      moreover from kt ct pvt pt3 False
      have "parse_dict_loop t d = Inr (dict_set d key v, t3)"
        by (simp add: parse_dict_loop.simps [of t] t3_def)
      ultimately show ?thesis using n1' s3' t3'
        by (intro exI [of _ "n1 + 2"]) simp
    next
      case True
      from ok3 Cons have nx: "next' s3 = Inr (y, move s3 1)" by (rule next_Cons)
      with run k c pv p3 True
      have loop: "parse_dict_loop (move s3 1) (dict_set d key v) = Inr (d', s')"
        by (simp add: parse_dict_loop.simps [of s])
      define t5 where "t5 = move t3 1"
      from ok3 have ok5: "stream_ok (move s3 1)" by (rule stream_ok_move)
      from okt3 have okt5: "stream_ok t5" by (simp add: t5_def stream_ok_move)
      from ok3 okt3 Cons rt3' have rt5: "remaining t5 = remaining (move s3 1) @ ex"
        by (simp add: t5_def remaining_move)
      from okt3 rt3' have nxt: "next' t3 = Inr (y, t5)"
        by (simp add: next_ok t5_def)
      from "3.IH"(2) [OF k refl c pv refl p3 refl _ nx refl ok5 okt5 rt5 loop] True
      obtain n2 where n2: "n2 \<le> length (remaining (move s3 1))"
        and s': "s' = move (move s3 1) n2"
        and lt: "n2 < length (remaining (move s3 1)) \<longrightarrow>
          parse_dict_loop t5 (dict_set d key v) = Inr (d', move t5 n2)"
        by auto
      from ok3 len3 have len5: "length (remaining (move s3 1)) = length (remaining s) - (n1 + 3)"
        by (simp add: remaining_move)
      from Cons len3 have "n1 + 3 \<le> length (remaining s)" by simp
      with n2 len5 have b: "n1 + 3 + n2 \<le> length (remaining s)" by simp
      have eq: "n1 + 2 + 1 + n2 = n1 + 3 + n2" by simp
      from s' s3' have "s' = move s (n1 + 2 + 1 + n2)" by (simp only: move_move)
      with eq have e: "s' = move s (n1 + 3 + n2)" by (simp only:)
      have "move t5 n2 = move t (n1 + 2 + 1 + n2)"
        by (simp only: t5_def t3' move_move)
      with eq have t5': "move t5 n2 = move t (n1 + 3 + n2)" by (simp only:)
      have "parse_dict_loop t d = Inr (d', move t (n1 + 3 + n2))"
        if "n1 + 3 + n2 < length (remaining s)"
      proof -
        from that len5 have "n2 < length (remaining (move s3 1))" by simp
        with lt have "parse_dict_loop t5 (dict_set d key v) = Inr (d', move t5 n2)" by simp
        with kt ct pvt pt3 True nxt have "parse_dict_loop t d = Inr (d', move t5 n2)"
          by (simp add: parse_dict_loop.simps [of t] t3_def)
        with t5' show ?thesis by simp
      qed
      with b e show ?thesis by (intro exI [of _ "n1 + 3 + n2"]) simp
    qed
  qed
next
  case (4 s)
  note ok = "4.prems"(1) and okt = "4.prems"(2) and rel = "4.prems"(3) and run = "4.prems"(4)
  from run obtain s1 l s2 where c1: "consume s (TStr ''['') = Inr s1"
    and lp: "parse_list_loop s1 [] = Inr (l, s2)"
    and c2: "consume s2 (TStr '']'') = Inr s'" and v: "v = VList l"
    by (rule parse_list_Inr)
  from ok c1 obtain r where r: "remaining s = TStr ''['' # r" and s1: "s1 = move s 1"
    by (rule consume_Inr)
  from ok s1 have ok1: "stream_ok s1" by (simp add: stream_ok_move)
  from okt have okt1: "stream_ok (move t 1)" by (rule stream_ok_move)
  from ok r s1 have r1: "remaining s1 = r" by (simp add: remaining_move)
  from okt rel r r1 have rt1: "remaining (move t 1) = remaining s1 @ ex"
    by (simp add: remaining_move)
  from "4.IH" [OF c1 ok1 okt1 rt1 lp] obtain n where n: "n \<le> length (remaining s1)"
    and s2: "s2 = move s1 n"
    and tl: "n < length (remaining s1) \<longrightarrow>
      parse_list_loop (move t 1) [] = Inr (l, move (move t 1) n)"
    by auto
  from ok1 s2 have ok2: "stream_ok s2" by (simp add: stream_ok_move)
  from ok2 c2 obtain r2 where r2: "remaining s2 = TStr '']'' # r2" and s': "s' = move s2 1"
    by (rule consume_Inr)
  from ok1 s2 r1 r2 have d: "drop n r = TStr '']'' # r2" by (simp add: remaining_move)
  then have less: "n < length r" by (rule drop_Cons_less)
  with tl r1 have tl': "parse_list_loop (move t 1) [] = Inr (l, move t (1 + n))"
    by (simp add: move_move)
  from okt have okt2: "stream_ok (move t (1 + n))" by (rule stream_ok_move)
  from okt rel r d less have "remaining (move t (1 + n)) = TStr '']'' # (r2 @ ex)"
    by (simp add: remaining_move)
  with okt2 have "consume (move t (1 + n)) (TStr '']'') = Inr (move (move t (1 + n)) 1)"
    by (rule consume_Cons)
  with okt rel r tl' v have "parse_list t = Inr (v, move t (n + 2))"
    by (simp add: parse_list.simps [of t] consume_ok move_move add.commute)
  moreover from s' s2 s1 have "s' = move s (n + 2)" by (simp add: move_move)
  moreover from r less have "n + 2 \<le> length (remaining s)" by simp
  ultimately show ?case by blast
next
  case (5 s l)
  note ok = "5.prems"(1) and okt = "5.prems"(2) and rel = "5.prems"(3) and run = "5.prems"(4)
  show ?case
  proof (cases "remaining s")
    case Nil
    with ok have "peek s = Inr (None, s)" and "parse_value s = Inl TypeError"
      by (simp_all add: peek_ok parse_value_ok)
    with run show ?thesis by (simp add: parse_list_loop.simps [of s])
  next
    case (Cons x r)
    from ok Cons have p: "peek s = Inr (Some x, s)" by (rule peek_Cons)
    from Cons rel have rt: "remaining t = x # (r @ ex)" by simp
    with okt have pt: "peek t = Inr (Some x, t)" by (rule peek_Cons)
    show ?thesis
    proof (cases "x = TStr '']''")
      case True
      with run p have "l' = l" and "s' = s" by (simp_all add: parse_list_loop.simps [of s])
      moreover from pt True have "parse_list_loop t l = Inr (l, t)"
        by (simp add: parse_list_loop.simps [of t])
      ultimately show ?thesis by (intro exI [of _ 0]) (simp add: move_0)
    next
      case False
      then have ne: "Some x \<noteq> Some (TStr '']'')" by simp
      from run p False obtain v s2 where pv: "parse_value s = Inr (v, s2)"
        by (cases "parse_value s") (auto simp: parse_list_loop.simps [of s])
      from "5.IH"(1) [OF p refl ne ok okt rel pv] obtain n1 where
        n1: "n1 \<le> length (remaining s)" and s2: "s2 = move s n1"
        and pvt: "parse_value t = Inr (v, move t n1)"
        by auto
      define t2 where "t2 = move t n1"
      from ok s2 have ok2: "stream_ok s2" by (simp add: stream_ok_move)
      from okt have okt2: "stream_ok t2" by (simp add: t2_def stream_ok_move)
      from ok okt rel n1 s2 have rt2: "remaining t2 = remaining s2 @ ex"
        by (simp add: t2_def remaining_move)
      from ok s2 have len2: "length (remaining s2) = length (remaining s) - n1"
        by (simp add: remaining_move)
      show ?thesis
      proof (cases "remaining s2")
        case Nil
        from ok2 Nil have "peek s2 = Inr (None, s2)" by (rule peek_Nil)
        with run p False pv have "l' = l @ [v]" and "s' = s2"
          by (simp_all add: parse_list_loop.simps [of s])
        with Nil len2 n1 s2 show ?thesis by (intro exI [of _ n1]) simp
      next
        case c2: (Cons y r2)
        from ok2 c2 have p2: "peek s2 = Inr (Some y, s2)" by (rule peek_Cons)
        from c2 rt2 have rt2': "remaining t2 = y # (r2 @ ex)" by simp
        with okt2 have pt2: "peek t2 = Inr (Some y, t2)" by (rule peek_Cons)
        show ?thesis
        proof (cases "y = TStr '',''")
          case no: False
          with run p False pv p2 have "l' = l @ [v]" and "s' = s2"
            by (simp_all add: parse_list_loop.simps [of s])
          moreover from pt False pvt pt2 no
          have "parse_list_loop t l = Inr (l @ [v], t2)"
            by (simp add: parse_list_loop.simps [of t] t2_def)
          ultimately show ?thesis using n1 s2 t2_def
            by (intro exI [of _ n1]) simp
        next
          case comma: True
          then have cm: "Some y = Some (TStr '','')" by simp
          from ok2 c2 have nx: "next' s2 = Inr (y, move s2 1)" by (rule next_Cons)
          with run p False pv p2 comma
          have loop: "parse_list_loop (move s2 1) (l @ [v]) = Inr (l', s')"
            by (simp add: parse_list_loop.simps [of s])
          define t4 where "t4 = move t2 1"
          from ok2 have ok4: "stream_ok (move s2 1)" by (rule stream_ok_move)
          from okt2 have okt4: "stream_ok t4" by (simp add: t4_def stream_ok_move)
          from ok2 okt2 c2 rt2' have rt4: "remaining t4 = remaining (move s2 1) @ ex"
            by (simp add: t4_def remaining_move)
          from okt2 rt2' have nxt: "next' t2 = Inr (y, t4)"
            by (simp add: next_ok t4_def)
          from "5.IH"(2) [OF p refl ne pv refl p2 refl cm nx refl ok4 okt4 rt4 loop]
          obtain n2 where n2: "n2 \<le> length (remaining (move s2 1))"
            and s': "s' = move (move s2 1) n2"
            and lt: "n2 < length (remaining (move s2 1)) \<longrightarrow>
              parse_list_loop t4 (l @ [v]) = Inr (l', move t4 n2)"
            by auto
          from ok2 len2 have len4:
            "length (remaining (move s2 1)) = length (remaining s) - (n1 + 1)"
            by (simp add: remaining_move)
          from c2 len2 have "n1 + 1 \<le> length (remaining s)" by simp
          with n2 len4 have b: "n1 + 1 + n2 \<le> length (remaining s)" by simp
          from s' s2 have e: "s' = move s (n1 + 1 + n2)" by (simp only: move_move)
          have t4': "move t4 n2 = move t (n1 + 1 + n2)"
            by (simp only: t4_def t2_def move_move)
          have "parse_list_loop t l = Inr (l', move t (n1 + 1 + n2))"
            if "n1 + 1 + n2 < length (remaining s)"
          proof -
            from that len4 have "n2 < length (remaining (move s2 1))" by simp
            with lt have "parse_list_loop t4 (l @ [v]) = Inr (l', move t4 n2)" by simp
            with pt False pvt pt2 comma nxt have "parse_list_loop t l = Inr (l', move t4 n2)"
              by (simp add: parse_list_loop.simps [of t] t2_def)
            with t4' show ?thesis by simp
          qed
          with b e show ?thesis by (intro exI [of _ "n1 + 1 + n2"]) simp
        qed
      qed
    qed
  qed
qed

subsection \<open>Tokens after a complete document\<close>

lemma parse_ok:
  "stream_ok s \<Longrightarrow>
     parse s =
       (case remaining s of
          [] \<Rightarrow> Inl (ValueError (UnexpectedTokenNumber (s_cursor s)))
        | x # _ \<Rightarrow>
            (case (if x = TStr ''{'' then parse_dict s
                   else if x = TStr ''['' then parse_list s
                   else Inl (ValueError (UnexpectedTokenNumber (s_cursor s)))) of
               Inl e \<Rightarrow> Inl e
             | Inr (tree, s2) \<Rightarrow>
                 if s_cursor s2 < s_end s2 then
                   (case peek s2 of
                      Inl e \<Rightarrow> Inl e
                    | Inr (t, s3) \<Rightarrow> Inl (ValueError (UnexpectedTokenAtEnd t)))
                 else Inr (tree, s2)))"
  by (cases "remaining s") (simp_all add: parse_def peek_ok)

lemma parse_trailing:
  assumes "parse (Stream td) = Inr (tree, s2)" and "tr \<noteq> []"
  shows "parse (Stream (td @ tr)) = Inl (ValueError (UnexpectedTokenAtEnd (Some (hd tr))))"
proof -
  let ?s = "Stream td" and ?t = "Stream (td @ tr)"
  have ok: "stream_ok ?s" and okt: "stream_ok ?t" by (rule stream_ok_Stream)+
  have rel: "remaining ?t = remaining ?s @ tr" by (simp add: remaining_Stream)
  from assms(1) obtain x r where td: "td = x # r"
    by (cases td) (auto simp: parse_ok stream_ok_Stream remaining_Stream)
  from assms(1) td have x: "x = TStr ''{'' \<or> x = TStr ''[''"
    by (auto simp: parse_ok stream_ok_Stream remaining_Stream split: if_splits)
  from assms(1) have run: "parse_dict ?s = Inr (tree, s2) \<or> parse_list ?s = Inr (tree, s2)"
    by (rule parse_Inr)
  have "\<exists>n. n \<le> length td \<and> s2 = move ?s n
      \<and> (if x = TStr ''{'' then parse_dict ?t else parse_list ?t) = Inr (tree, move ?t n)"
  proof (cases "x = TStr ''{''")
    case True
    with assms(1) td have "parse_dict ?s = Inr (tree, s2)"
      by (auto simp: parse_ok stream_ok_Stream remaining_Stream split: sum.splits if_splits)
    from parse_sim(2) [OF ok okt rel this] True show ?thesis
      by (simp add: remaining_Stream)
  next
    case False
    with x have "x = TStr ''[''" by simp
    with assms(1) td have "parse_list ?s = Inr (tree, s2)"
      by (auto simp: parse_ok stream_ok_Stream remaining_Stream split: sum.splits if_splits)
    from parse_sim(4) [OF ok okt rel this] False show ?thesis
      by (simp add: remaining_Stream)
  qed
  then obtain n where n: "n \<le> length td" and s2: "s2 = move ?s n"
    and t: "(if x = TStr ''{'' then parse_dict ?t else parse_list ?t) = Inr (tree, move ?t n)"
    by blast
  from ok s2 have ok2: "stream_ok s2" by (simp add: stream_ok_move)
  from assms(1) td x have "\<not> s_cursor s2 < s_end s2"
    by (auto simp: parse_ok stream_ok_Stream remaining_Stream split: sum.splits if_splits)
  with ok2 have "remaining s2 = []" by (simp add: cursor_before_end)
  with ok s2 have "drop n td = []" by (simp add: remaining_move remaining_Stream)
  with n have n': "n = length td" by simp
  from okt have okn: "stream_ok (move ?t n)" by (rule stream_ok_move)
  from okt n' have rn: "remaining (move ?t n) = tr" by (simp add: remaining_move remaining_Stream)
  from assms(2) obtain y ys where tr: "tr = y # ys" by (cases tr) auto
  from okn rn assms(2) have lt: "s_cursor (move ?t n) < s_end (move ?t n)"
    by (simp add: cursor_before_end)
  from okn rn tr have pk: "peek (move ?t n) = Inr (Some (hd tr), move ?t n)"
    by (simp add: peek_ok)
  from x t lt pk td show ?thesis
    by (auto simp: parse_ok stream_ok_Stream remaining_Stream)
qed

text \<open>
  The check of \<^verbatim>\<open>parse\<close> for tokens after the document: when the tokens of a complete
  document (a list that \<^verbatim>\<open>parse\<close> accepts) are followed by at least one more token,
  \<^verbatim>\<open>parse\<close> raises the \<^verbatim>\<open>ValueError\<close> for a token at the end of the file, with the
  first of the further tokens; so does \<^verbatim>\<open>main\<close> on every text of which \<^verbatim>\<open>tokenize\<close>
  returns such a token list.
\<close>

lemma trailing_tokens:
  assumes "parse (Stream td) = Inr (tree, s2)" and "tr \<noteq> []"
  shows "parse (Stream (td @ tr)) = Inl (ValueError (UnexpectedTokenAtEnd (Some (hd tr))))
    \<and> (tokenize (Stream data) = Inr (td @ tr, s1) \<longrightarrow>
         main data = Inr (Inl (ValueError (UnexpectedTokenAtEnd (Some (hd tr))))))"
  using parse_trailing [OF assms] by (simp add: main_def)

subsection \<open>Values and arrays\<close>

text \<open>
  The rest of C3 holds: a token that is there and is no brace, no bracket, no number and
  does not begin with a quote gets the \<^verbatim>\<open>ValueError\<close> for an unexpected value, with the
  token.
\<close>

lemma parse_value_unexpected:
  assumes "stream_ok s" and "remaining s = TStr (c # cs) # r" and "c \<noteq> CHR 0x22"
    and "TStr (c # cs) \<noteq> TStr ''{''" and "TStr (c # cs) \<noteq> TStr ''[''"
  shows "parse_value s = Inl (ValueError (UnexpectedJSONValue (TStr (c # cs))))"
proof -
  define x where "x = TStr (c # cs)"
  with assms have r: "remaining s = x # r" and x: "x \<noteq> TStr ''{''" "x \<noteq> TStr ''[''"
    by simp_all
  from assms(3) have "scalar x = Inl (ValueError (UnexpectedJSONValue (TStr (c # cs))))"
    by (simp add: x_def)
  with assms(1) r x show ?thesis by (simp add: parse_value_ok)
qed

lemma parse_list_loop_close:
  "stream_ok t \<Longrightarrow> remaining t = TStr '']'' # r \<Longrightarrow> parse_list_loop t l = Inr (l, t)"
  by (simp add: parse_list_loop.simps [of t] peek_ok)

lemma parse_list_loop_comma:
  assumes "stream_ok t" and "remaining t = x # r" and "x \<noteq> TStr '']''"
    and "parse_value t = Inr (v, t2)" and "stream_ok t2" and "remaining t2 = TStr '','' # r2"
  shows "parse_list_loop t l = parse_list_loop (move t2 1) (l @ [v])"
  using assms by (simp add: parse_list_loop.simps [of t] peek_ok next_ok)

lemma parse_list_loop_last:
  assumes "stream_ok t" and "remaining t = x # r" and "x \<noteq> TStr '']''"
    and "parse_value t = Inr (v, t2)" and "stream_ok t2" and "remaining t2 = y # r2"
    and "y \<noteq> TStr '',''"
  shows "parse_list_loop t l = Inr (l @ [v], t2)"
  using assms by (simp add: parse_list_loop.simps [of t] peek_ok)

lemma parse_list_one:
  assumes "parse_value (Stream vs) = Inr (x, s')" and "\<not> s_cursor s' < s_end s'"
    and "close = [TStr '','', TStr '']''] \<or> close = [TStr '']'']"
  shows "parse (Stream (TStr ''['' # vs @ close))
    = Inr (VList [x], move (Stream (TStr ''['' # vs @ close)) (length (TStr ''['' # vs @ close)))"
proof -
  let ?s = "Stream vs" and ?T = "Stream (TStr ''['' # vs @ close)"
  let ?t = "move ?T 1"
  have ok: "stream_ok ?s" and okT: "stream_ok ?T" by (rule stream_ok_Stream)+
  from okT have okt: "stream_ok ?t" by (rule stream_ok_move)
  from okT have rt: "remaining ?t = vs @ close" by (simp add: remaining_move remaining_Stream)
  then have rel: "remaining ?t = remaining ?s @ close" by (simp add: remaining_Stream)
  from parse_sim(1) [OF ok okt rel assms(1)] obtain n where n: "n \<le> length vs"
    and s': "s' = move ?s n" and pv: "parse_value ?t = Inr (x, move ?t n)"
    by (auto simp: remaining_Stream)
  from ok s' have ok': "stream_ok s'" by (simp add: stream_ok_move)
  with assms(2) have "remaining s' = []" by (simp add: cursor_before_end)
  with ok s' have "drop n vs = []" by (simp add: remaining_move remaining_Stream)
  with n have n': "n = length vs" by simp
  from assms(1) obtain v0 vs' where vs: "vs = v0 # vs'"
    by (cases vs) (auto simp: parse_value_ok stream_ok_Stream remaining_Stream)
  from assms(1) vs have v0: "v0 \<noteq> TStr '']''"
    by (auto simp: parse_value_ok stream_ok_Stream remaining_Stream)
  from rt vs have rt': "remaining ?t = v0 # (vs' @ close)" by simp
  let ?t2 = "move ?t n"
  from okt have okt2: "stream_ok ?t2" by (rule stream_ok_move)
  from okt rt n' have rt2: "remaining ?t2 = close" by (simp add: remaining_move)
  have loop: "parse_list_loop ?t [] = Inr ([x], move ?T (length vs + length close))"
  proof -
    from assms(3) show ?thesis
    proof
      assume c: "close = [TStr '','', TStr '']'']"
      let ?t3 = "move ?t2 1"
      from okt2 have okt3: "stream_ok ?t3" by (rule stream_ok_move)
      from okt2 rt2 c have rt3: "remaining ?t3 = [TStr '']'']" by (simp add: remaining_move)
      from rt2 c have rt2': "remaining ?t2 = TStr '','' # [TStr '']'']" by simp
      from parse_list_loop_comma [OF okt rt' v0 pv okt2 rt2']
      have "parse_list_loop ?t [] = parse_list_loop ?t3 [x]" by simp
      also from parse_list_loop_close [OF okt3 rt3] have "\<dots> = Inr ([x], ?t3)" .
      also have "?t3 = move ?T (length vs + length close)"
        using c n' by (simp add: move_move)
      finally show ?thesis .
    next
      assume c: "close = [TStr '']'']"
      from rt2 c have rt2': "remaining ?t2 = TStr '']'' # []" by simp
      from parse_list_loop_last [OF okt rt' v0 pv okt2 rt2']
      have "parse_list_loop ?t [] = Inr ([x], ?t2)" by simp
      also have "?t2 = move ?T (length vs + length close)"
        using c n' by (simp add: move_move)
      finally show ?thesis .
    qed
  qed
  let ?t4 = "move ?T (length vs + length close)"
  from okT have okt4: "stream_ok ?t4" by (rule stream_ok_move)
  from okT assms(3) have rt4: "remaining ?t4 = [TStr '']'']"
    by (auto simp: remaining_move remaining_Stream)
  from okt4 rt4 have cl: "consume ?t4 (TStr '']'') = Inr (move ?t4 1)" by (rule consume_Cons)
  from okT loop cl have pl: "parse_list ?T = Inr (VList [x], move ?t4 1)"
    by (simp add: parse_list.simps [of ?T] consume_ok remaining_Stream)
  have fin: "move ?t4 1 = move ?T (length (TStr ''['' # vs @ close))"
    by (simp add: move_move)
  from okT have okf: "stream_ok (move ?t4 1)" by (simp add: stream_ok_move)
  from okt4 rt4 have "remaining (move ?t4 1) = []" by (simp add: remaining_move)
  with okf have "\<not> s_cursor (move ?t4 1) < s_end (move ?t4 1)"
    by (simp add: cursor_before_end)
  with pl have "parse ?T = Inr (VList [x], move ?t4 1)"
    by (simp add: parse_ok stream_ok_Stream remaining_Stream)
  with fin show ?thesis by simp
qed

text \<open>
  C10. A comma before the closing bracket is accepted. For every token list \<open>vs\<close> that
  \<^verbatim>\<open>parse_value\<close> reads to its end as a value \<open>x\<close>, the tokens \<^verbatim>\<open>[\<close>, \<open>vs\<close>, \<^verbatim>\<open>,\<close>,
  \<^verbatim>\<open>]\<close> parse to the array of \<open>x\<close> alone, and so do the tokens \<^verbatim>\<open>[\<close>, \<open>vs\<close>, \<^verbatim>\<open>]\<close>;
  both times all tokens are read and nothing is raised.
\<close>

theorem trailing_comma_accepted:
  assumes "parse_value (Stream vs) = Inr (x, s')" and "\<not> s_cursor s' < s_end s'"
  shows "parse (Stream (TStr ''['' # vs @ [TStr '','', TStr '']'']))
      = Inr (VList [x], move (Stream (TStr ''['' # vs @ [TStr '','', TStr '']''])) (length vs + 3))
    \<and> parse (Stream (TStr ''['' # vs @ [TStr '']'']))
      = Inr (VList [x], move (Stream (TStr ''['' # vs @ [TStr '']''])) (length vs + 2))"
  using parse_list_one [OF assms, of "[TStr '','', TStr '']'']"]
    parse_list_one [OF assms, of "[TStr '']'']"]
  by (simp add: numeral_3_eq_3 numeral_2_eq_2)

theorem trailing_comma_accepted_witness:
  "parse (Stream [TStr ''['', TStr ''['', TInt 2, TStr '']'', TStr '','', TStr '']''])
     = Inr (VList [VList [VInt 2]],
            \<lparr>s_data = [TStr ''['', TStr ''['', TInt 2, TStr '']'', TStr '','', TStr '']''],
             s_cursor = 6, s_end = 6\<rparr>)
   \<and> parse (Stream [TStr ''['', TStr ''['', TInt 2, TStr '']'', TStr '']''])
     = Inr (VList [VList [VInt 2]],
            \<lparr>s_data = [TStr ''['', TStr ''['', TInt 2, TStr '']'', TStr '']''],
             s_cursor = 5, s_end = 5\<rparr>)"
proof -
  have v: "parse_value (Stream [TStr ''['', TInt 2, TStr '']''])
      = Inr (VList [VInt 2], \<lparr>s_data = [TStr ''['', TInt 2, TStr '']''], s_cursor = 3, s_end = 3\<rparr>)"
    by code_simp
  from trailing_comma_accepted [OF v] show ?thesis
    by (simp add: move_def Stream_def)
qed

lemma main_trailing_comma: "main ''[1,]'' = Inr (Inr (VList [VInt 1]))"
  by code_simp

subsection \<open>Objects\<close>

text \<open>The assignments to a \<^verbatim>\<open>dict\<close>.\<close>

lemma dict_set_split:
  "dict_set d k v = takeWhile (\<lambda>p. fst p \<noteq> k) d @ (k, v) # tl (dropWhile (\<lambda>p. fst p \<noteq> k) d)"
  by (induction d k v rule: dict_set.induct) auto

lemma map_of_dict_set: "map_of (dict_set d k v) = (map_of d)(k \<mapsto> v)"
  by (rule ext) (simp add: dict_set_lookup dict_set_other)

lemma dict_set_all_snoc: "dict_set_all d (ps @ [(k, v)]) = dict_set (dict_set_all d ps) k v"
  by (induction d ps rule: dict_set_all.induct) auto

lemma dict_set_all_keys:
  "map fst (dict_set_all [] ps) = rev (remdups (rev (map fst ps)))"
proof (induction ps rule: rev_induct)
  case Nil
  show ?case by simp
next
  case (snoc p ps)
  obtain k v where p: "p = (k, v)" by (cases p)
  from snoc have "set (map fst (dict_set_all [] ps)) = set (map fst ps)" by simp
  with snoc p show ?case
    by (simp add: dict_set_all_snoc dict_set_keys del: set_map)
qed

lemma dict_set_all_lookup: "map_of (dict_set_all [] ps) = map_of (rev ps)"
proof (induction ps rule: rev_induct)
  case Nil
  show ?case by simp
next
  case (snoc p ps)
  obtain k v where p: "p = (k, v)" by (cases p)
  with snoc show ?case by (simp add: dict_set_all_snoc map_of_dict_set)
qed

lemma dict_set_all_distinct: "distinct (map fst (dict_set_all [] ps))"
  by (simp add: dict_set_all_keys)

text \<open>The loop of \<^verbatim>\<open>parse_dict\<close>, entry by entry.\<close>

lemma parse_value_reads:
  assumes "reads vs x" and "stream_ok t" and "remaining t = vs @ ex"
  shows "parse_value t = Inr (x, move t (length vs))"
proof -
  let ?s = "Stream vs"
  from assms(1) obtain s' where run: "parse_value ?s = Inr (x, s')"
    and e: "\<not> s_cursor s' < s_end s'"
    by (auto simp: reads_def split: sum.splits)
  have ok: "stream_ok ?s" by (rule stream_ok_Stream)
  from assms(3) have rel: "remaining t = remaining ?s @ ex" by (simp add: remaining_Stream)
  from parse_sim(1) [OF ok assms(2) rel run] obtain n where n: "n \<le> length vs"
    and s': "s' = move ?s n" and pv: "parse_value t = Inr (x, move t n)"
    by (auto simp: remaining_Stream)
  from ok s' have "stream_ok s'" by (simp add: stream_ok_move)
  with e have "remaining s' = []" by (simp add: cursor_before_end)
  with ok s' have "drop n vs = []" by (simp add: remaining_move remaining_Stream)
  with n have "n = length vs" by simp
  with pv show ?thesis by simp
qed

lemma parse_dict_loop_entry:
  assumes "stream_ok s" and "remaining s = TStr q # TStr '':'' # vs @ y # r" and "reads vs x"
  shows "parse_dict_loop s d =
    (if y = TStr '','' then parse_dict_loop (move s (length vs + 3)) (dict_set d (butlast (tl q)) x)
     else Inr (dict_set d (butlast (tl q)) x, move s (length vs + 2)))"
proof -
  define s1 where "s1 = move s 1"
  define s2 where "s2 = move s1 1"
  define s3 where "s3 = move s2 (length vs)"
  define s4 where "s4 = move s3 1"
  from assms(1) have ok: "stream_ok s1" "stream_ok s2" "stream_ok s3"
    by (simp_all add: s1_def s2_def s3_def stream_ok_move)
  from assms(1,2) have r1: "remaining s1 = TStr '':'' # vs @ y # r"
    by (simp add: s1_def remaining_move)
  with ok have r2: "remaining s2 = vs @ y # r" by (simp add: s2_def remaining_move)
  with ok have r3: "remaining s3 = y # r" by (simp add: s3_def remaining_move)
  from assms(1,2) have k: "parse_str s = Inr (butlast (tl q), s1)"
    by (simp add: parse_str_ok s1_def)
  from ok r1 have c: "consume s1 (TStr '':'') = Inr s2" by (simp add: consume_ok s2_def)
  from parse_value_reads [OF assms(3) ok(2) r2] have v: "parse_value s2 = Inr (x, s3)"
    by (simp add: s3_def)
  from ok r3 have p: "peek s3 = Inr (Some y, s3)" by (simp add: peek_ok)
  from ok r3 have n: "next' s3 = Inr (y, s4)" by (simp add: next_ok s4_def)
  have e3: "s3 = move s (length vs + 2)"
    by (simp add: s3_def s2_def s1_def move_move add.commute)
  have "1 + 1 + length vs + 1 = length vs + 3" by simp
  moreover have "s4 = move s (1 + 1 + length vs + 1)"
    by (simp only: s4_def s3_def s2_def s1_def move_move)
  ultimately have e4: "s4 = move s (length vs + 3)" by (simp only:)
  from k c v p n have "parse_dict_loop s d =
    (if y = TStr '','' then parse_dict_loop s4 (dict_set d (butlast (tl q)) x)
     else Inr (dict_set d (butlast (tl q)) x, s3))"
    by (simp add: parse_dict_loop.simps [of s])
  with e3 e4 show ?thesis by (simp only:)
qed

lemma parse_dict_loop_entries:
  "stream_ok s \<Longrightarrow> es \<noteq> [] \<Longrightarrow> list_all (\<lambda>(q, vs, x). reads vs x) es \<Longrightarrow>
     remaining s = entries_tokens es @ y # r \<Longrightarrow> y \<noteq> TStr '','' \<Longrightarrow>
     parse_dict_loop s d
       = Inr (dict_set_all d (entries_pairs es), move s (length (entries_tokens es)))"
proof (induction es arbitrary: s d rule: entries_tokens.induct)
  case 1
  then show ?case by simp
next
  case (2 q vs x)
  then show ?case
    using parse_dict_loop_entry [of s q vs y r x d]
    by (simp add: entries_pairs_def)
next
  case (3 q vs x e es)
  let ?s' = "move s (length vs + 3)"
  from "3.prems" have ok': "stream_ok ?s'" by (simp add: stream_ok_move)
  from "3.prems" have r': "remaining ?s' = entries_tokens (e # es) @ y # r"
    by (simp add: remaining_move numeral_3_eq_3)
  from "3.prems" have rd: "reads vs x" and all: "list_all (\<lambda>(q, vs, x). reads vs x) (e # es)"
    by simp_all
  from "3.prems" have rs: "remaining s = TStr q # TStr '':'' # vs @ TStr '','' # (entries_tokens (e # es) @ y # r)"
    by simp
  from parse_dict_loop_entry [OF "3.prems"(1) rs rd, of d]
  have "parse_dict_loop s d = parse_dict_loop ?s' (dict_set d (butlast (tl q)) x)" by simp
  also from "3.IH" [OF ok' _ all r' "3.prems"(5)]
  have "\<dots> = Inr (dict_set_all (dict_set d (butlast (tl q)) x) (entries_pairs (e # es)),
      move ?s' (length (entries_tokens (e # es))))"
    by simp
  also have "move ?s' (length (entries_tokens (e # es)))
      = move s (length (entries_tokens ((q, vs, x) # e # es)))"
  proof -
    have "length vs + 3 + length (entries_tokens (e # es))
        = length (entries_tokens ((q, vs, x) # e # es))" by simp
    then show ?thesis by (simp only: move_move)
  qed
  finally show ?case by (simp add: entries_pairs_def)
qed

lemma parse_object:
  assumes "es \<noteq> []" and "list_all (\<lambda>(q, vs, x). reads vs x) es"
  shows "parse (Stream (TStr ''{'' # entries_tokens es @ [TStr ''}'']))
    = Inr (VDict (dict_set_all [] (entries_pairs es)),
           move (Stream (TStr ''{'' # entries_tokens es @ [TStr ''}'']))
             (length (TStr ''{'' # entries_tokens es @ [TStr ''}''])))"
proof -
  let ?T = "Stream (TStr ''{'' # entries_tokens es @ [TStr ''}''])"
  let ?n = "length (entries_tokens es)"
  define t1 where "t1 = move ?T 1"
  define t2 where "t2 = move t1 ?n"
  define t3 where "t3 = move t2 1"
  have okT: "stream_ok ?T" by (rule stream_ok_Stream)
  then have ok: "stream_ok t1" "stream_ok t2" "stream_ok t3"
    by (simp_all add: t1_def t2_def t3_def stream_ok_move)
  from okT have r1: "remaining t1 = entries_tokens es @ TStr ''}'' # []"
    by (simp add: t1_def remaining_move remaining_Stream)
  with ok have r2: "remaining t2 = [TStr ''}'']" by (simp add: t2_def remaining_move)
  with ok have r3: "remaining t3 = []" by (simp add: t3_def remaining_move)
  from okT have c1: "consume ?T (TStr ''{'') = Inr t1"
    by (simp add: consume_ok remaining_Stream t1_def)
  from parse_dict_loop_entries [OF ok(1) assms r1, of "[]"]
  have l: "parse_dict_loop t1 [] = Inr (dict_set_all [] (entries_pairs es), t2)"
    by (simp add: t2_def)
  from ok r2 have c2: "consume t2 (TStr ''}'') = Inr t3" by (simp add: consume_ok t3_def)
  from c1 l c2 have pd: "parse_dict ?T = Inr (VDict (dict_set_all [] (entries_pairs es)), t3)"
    by (simp add: parse_dict.simps [of ?T])
  from ok r3 have "\<not> s_cursor t3 < s_end t3" by (simp add: cursor_before_end)
  with pd have "parse ?T = Inr (VDict (dict_set_all [] (entries_pairs es)), t3)"
    by (simp add: parse_ok stream_ok_Stream remaining_Stream)
  moreover have "t3 = move ?T (length (TStr ''{'' # entries_tokens es @ [TStr ''}'']))"
  proof -
    have "1 + ?n + 1 = length (TStr ''{'' # entries_tokens es @ [TStr ''}''])" by simp
    then show ?thesis by (simp only: t3_def t2_def t1_def move_move)
  qed
  ultimately show ?thesis by (simp only:)
qed

lemma main_three_entries:
  \<open>main ''{"a":1,"b":2,"a":3}'' = Inr (Inr (VDict [(''a'', VInt 3), (''b'', VInt 2)]))\<close>
  by code_simp

text \<open>
  C5. Every object parses to the \<^verbatim>\<open>dict\<close> that the assignments of its entries make, in
  their order, starting from the empty one: for every list of entries, at least one, each
  with a value that \<^verbatim>\<open>parse_value\<close> reads, the tokens \<^verbatim>\<open>{\<close>, the entries, \<^verbatim>\<open>}\<close> are read
  to the end and nothing is raised. What the assignments make is fixed by the keys and the
  values alone: the keys are those of the entries without repetition, in the order in
  which they were first seen, and each key has the value that came with it last. One
  assignment keeps what is before the key's first place and what is after it and puts the
  new value at that place, or at the end when the key is new. So a key that is written
  twice has the later value (whatever the key token and the two integers), and the texts
  \<^verbatim>\<open>{"a":1,"a":2}\<close> and \<^verbatim>\<open>{"a":1,"b":2,"a":3}\<close> give \<^verbatim>\<open>a\<close> at 2, and \<^verbatim>\<open>a\<close> at 3 before
  \<^verbatim>\<open>b\<close> at 2.
\<close>

theorem duplicate_key_overwrites:
  assumes "es \<noteq> []" and "list_all (\<lambda>(q, vs, x). reads vs x) es"
  shows \<open>parse (Stream (TStr ''{'' # entries_tokens es @ [TStr ''}'']))
      = Inr (VDict (dict_set_all [] (entries_pairs es)),
             move (Stream (TStr ''{'' # entries_tokens es @ [TStr ''}'']))
               (length (TStr ''{'' # entries_tokens es @ [TStr ''}''])))
    \<and> map fst (dict_set_all [] ps) = rev (remdups (rev (map fst ps)))
    \<and> map_of (dict_set_all [] ps) = map_of (rev ps)
    \<and> distinct (map fst (dict_set_all [] ps))
    \<and> dict_set d k v
        = takeWhile (\<lambda>p. fst p \<noteq> k) d @ (k, v) # tl (dropWhile (\<lambda>p. fst p \<noteq> k) d)
    \<and> dict_set (dict_set d k v1) k v2 = dict_set d k v2
    \<and> map fst (dict_set (dict_set d k v1) k v2) = map fst (dict_set d k v1)
    \<and> map_of (dict_set (dict_set d k v1) k v2) k = Some v2
    \<and> parse (Stream [TStr ''{'', TStr q, TStr '':'', TInt i, TStr '','', TStr q, TStr '':'',
                     TInt j, TStr ''}''])
        = Inr (VDict [(butlast (tl q), VInt j)],
               \<lparr>s_data = [TStr ''{'', TStr q, TStr '':'', TInt i, TStr '','', TStr q, TStr '':'',
                           TInt j, TStr ''}''], s_cursor = 9, s_end = 9\<rparr>)
    \<and> main ''{"a":1,"a":2}'' = Inr (Inr (VDict [(''a'', VInt 2)]))
    \<and> main ''{"a":1,"b":2,"a":3}'' = Inr (Inr (VDict [(''a'', VInt 3), (''b'', VInt 2)]))\<close>
  using parse_object [OF assms] dict_set_all_keys [of ps] dict_set_all_lookup [of ps]
    dict_set_split [of d k v] dict_set_twice [of d k v1 v2] dict_set_lookup [of d k v2]
    parse_same_key_twice [of q i j] main_same_key_twice main_three_entries
  by (simp add: dict_set_keys del: set_map)

theorem duplicate_key_overwrites_witness:
  \<open>parse (Stream [TStr ''{'', TStr ''"a"'', TStr '':'', TInt 1, TStr '','',
                  TStr ''"b"'', TStr '':'', TStr ''['', TInt 2, TStr '']'', TStr '','',
                  TStr ''"a"'', TStr '':'', TInt 3, TStr ''}''])
     = Inr (VDict [(''a'', VInt 3), (''b'', VList [VInt 2])],
            \<lparr>s_data = [TStr ''{'', TStr ''"a"'', TStr '':'', TInt 1, TStr '','',
                  TStr ''"b"'', TStr '':'', TStr ''['', TInt 2, TStr '']'', TStr '','',
                  TStr ''"a"'', TStr '':'', TInt 3, TStr ''}''], s_cursor = 15, s_end = 15\<rparr>)\<close>
proof -
  let ?es = \<open>[(''"a"'', [TInt 1], VInt 1), (''"b"'', [TStr ''['', TInt 2, TStr '']''], VList [VInt 2]),
              (''"a"'', [TInt 3], VInt 3)]\<close>
  have r: "reads [TInt 1] (VInt 1)" "reads [TStr ''['', TInt 2, TStr '']''] (VList [VInt 2])"
    "reads [TInt 3] (VInt 3)"
    by code_simp+
  then have a: "list_all (\<lambda>(q, vs, x). reads vs x) ?es" by simp
  have ne: "?es \<noteq> []" by simp
  from duplicate_key_overwrites [OF ne a, THEN conjunct1] show ?thesis
    by (simp add: entries_pairs_def move_def Stream_def)
qed

section \<open>Properties of the tokenizer\<close>

subsection \<open>The states of the loop\<close>

lemma stream_ok_later:
  "stream_ok s \<Longrightarrow> togo s1 \<le> togo s \<Longrightarrow> s_data s1 = s_data s \<Longrightarrow> s_end s1 = s_end s \<Longrightarrow>
     stream_ok s1"
  by (auto simp: stream_ok_def togo_def)

lemma loop_state_ok: "loop_state data s tokens \<Longrightarrow> stream_ok s \<and> s_data s = data"
proof (induction rule: loop_state.induct)
  case first
  show ?case by (simp add: stream_ok_Stream) (simp add: Stream_def)
next
  case (again s tokens token s1)
  from tokenize_step_togo [OF again.hyps(2)] again.IH show ?case
    by (auto intro: stream_ok_later)
qed

lemma loop_state_tokenize:
  "loop_state data s tokens \<Longrightarrow> tokenize (Stream data) = tokenize_loop s tokens"
proof (induction rule: loop_state.induct)
  case first
  show ?case by (simp add: tokenize_def)
next
  case (again s tokens token s1)
  then show ?case by (simp add: tokenize_loop.simps [of s])
qed

lemma loop_state_remaining:
  assumes "loop_state data s tokens" and "data = pre @ rest" and "s_cursor s = int (length pre)"
  shows "remaining s = rest"
  using loop_state_ok [OF assms(1)] assms(2,3) by (simp add: remaining_def)

lemma main_tokenize_error: "tokenize (Stream data) = Inl e \<Longrightarrow> main data = Inl e"
  by (simp add: main_def)

subsection \<open>Scanning white space\<close>

lemma skip_whitespace_ok:
  "stream_ok s \<Longrightarrow> remaining s = ws @ c # r \<Longrightarrow> list_all isspace ws \<Longrightarrow> \<not> isspace c \<Longrightarrow>
     skip_whitespace s = Inr (move s (length ws))"
proof (induction ws arbitrary: s)
  case Nil
  then show ?case
    by (simp add: skip_whitespace.simps [of s] peek_ok move_0)
next
  case (Cons w ws)
  from Cons.prems have ok1: "stream_ok (move s 1)" and r1: "remaining (move s 1) = ws @ c # r"
    by (simp_all add: stream_ok_move remaining_move)
  from Cons.prems have "skip_whitespace s = skip_whitespace (move s 1)"
    by (simp add: skip_whitespace.simps [of s] peek_ok next_ok)
  also from Cons.IH [OF ok1 r1] Cons.prems have "\<dots> = Inr (move (move s 1) (length ws))"
    by simp
  finally show ?case by (simp add: move_move)
qed

subsection \<open>Scanning strings\<close>

lemma tokenize_str_loop_unterminated:
  "stream_ok s \<Longrightarrow> remaining s = rest \<Longrightarrow> CHR 0x22 \<notin> set rest \<Longrightarrow>
     tokenize_str_loop s acc = Inl IndexError"
proof (induction rest arbitrary: s acc)
  case Nil
  then show ?case
    by (simp add: tokenize_str_loop.simps [of s] next_ok)
next
  case (Cons c rest)
  from Cons.prems have ok1: "stream_ok (move s 1)" and r1: "remaining (move s 1) = rest"
    by (simp_all add: stream_ok_move remaining_move)
  from Cons.prems have "tokenize_str_loop s acc = tokenize_str_loop (move s 1) (acc @ [c])"
    by (auto simp: tokenize_str_loop.simps [of s] next_ok)
  also from Cons.IH [OF ok1 r1] Cons.prems have "\<dots> = Inl IndexError"
    by simp
  finally show ?case .
qed

lemma tokenize_str_unterminated:
  assumes "stream_ok s" and "remaining s = CHR 0x22 # rest" and "CHR 0x22 \<notin> set rest"
  shows "tokenize_str s = Inl IndexError"
proof -
  from assms have ok1: "stream_ok (move s 1)" and r1: "remaining (move s 1) = rest"
    by (simp_all add: stream_ok_move remaining_move)
  from assms have "tokenize_str s = tokenize_str_loop (move s 1) [CHR 0x22]"
    by (simp add: tokenize_str_def consume_ok)
  with tokenize_str_loop_unterminated [OF ok1 r1 assms(3)] show ?thesis by simp
qed

lemma tokenize_step_unterminated:
  assumes "stream_ok s" and "remaining s = ws @ CHR 0x22 # rest" and "list_all isspace ws"
    and "CHR 0x22 \<notin> set rest"
  shows "tokenize_step s = Inl IndexError"
proof -
  let ?s1 = "move s (length ws)"
  have q: "\<not> isspace (CHR 0x22)" by (simp add: isspace_def)
  from assms(1) have ok1: "stream_ok ?s1" by (rule stream_ok_move)
  from assms(1,2) have r1: "remaining ?s1 = CHR 0x22 # rest" by (simp add: remaining_move)
  from skip_whitespace_ok [OF assms(1,2,3) q] have w: "skip_whitespace s = Inr ?s1" .
  from ok1 r1 have c: "\<not> s_cursor ?s1 \<ge> s_end ?s1"
    using cursor_before_end [OF ok1] by simp
  from tokenize_str_unterminated [OF ok1 r1 assms(4)] w c ok1 r1 show ?thesis
    by (simp add: tokenize_step_def peek_ok)
qed

text \<open>
  C6. Whenever the loop of \<^verbatim>\<open>tokenize\<close> starts a pass at a place of the text from
  which, after white space, a \<^verbatim>\<open>"\<close> opens a string and no other \<^verbatim>\<open>"\<close> follows up to
  the end of the text, \<^verbatim>\<open>tokenize\<close> raises \<^verbatim>\<open>IndexError\<close>, and so does \<^verbatim>\<open>main\<close>.
\<close>

theorem unterminated_string:
  assumes "loop_state data s tokens" and "data = pre @ ws @ CHR 0x22 # rest"
    and "s_cursor s = int (length pre)" and "list_all isspace ws" and "CHR 0x22 \<notin> set rest"
  shows "tokenize (Stream data) = Inl IndexError \<and> main data = Inl IndexError"
proof -
  from loop_state_ok [OF assms(1)] have ok: "stream_ok s" by simp
  from loop_state_remaining [OF assms(1,2,3)] have r: "remaining s = ws @ CHR 0x22 # rest" .
  from tokenize_step_unterminated [OF ok r assms(4,5)]
  have "tokenize_loop s tokens = Inl IndexError"
    by (simp add: tokenize_loop.simps [of s])
  with loop_state_tokenize [OF assms(1)] have "tokenize (Stream data) = Inl IndexError"
    by simp
  then show ?thesis by (simp add: main_tokenize_error)
qed

theorem unterminated_string_witness:
  \<open>tokenize (Stream ''[ "abc'') = Inl IndexError \<and> main ''[ "abc'' = Inl IndexError
   \<and> main ''"abc'' = Inl IndexError\<close>
proof -
  have f: \<open>loop_state ''[ "abc'' (Stream ''[ "abc'') []\<close> by (rule loop_state.first)
  have \<open>tokenize_step (Stream ''[ "abc'')
      = Inr (Some (TStr ''[''), \<lparr>s_data = ''[ "abc'', s_cursor = 1, s_end = 6\<rparr>)\<close>
    by code_simp
  from loop_state.again [OF f this]
  have s: \<open>loop_state ''[ "abc'' \<lparr>s_data = ''[ "abc'', s_cursor = 1, s_end = 6\<rparr> [TStr ''['']\<close>
    by simp
  have \<open>loop_state ''"abc'' (Stream ''"abc'') []\<close> by (rule loop_state.first)
  from unterminated_string [OF s, of \<open>''[''\<close> \<open>'' ''\<close> \<open>''abc''\<close>]
    unterminated_string [OF this, of \<open>''''\<close> \<open>''''\<close> \<open>''abc''\<close>]
  show ?thesis by (simp add: isspace_def Stream_def)
qed

subsection \<open>Scanning numbers\<close>

lemma isnumeric_other:
  "isnumeric c \<Longrightarrow> \<not> isspace c \<and> c \<notin> set ''{}[]:,'' \<and> c \<noteq> CHR 0x22 \<and> c \<noteq> CHR ''.''"
  by (auto simp: isnumeric_def isspace_def Let_def)

lemma tokenize_num_loop_digits:
  "stream_ok s \<Longrightarrow> remaining s = ds @ r \<Longrightarrow> list_all isnumeric ds \<Longrightarrow>
     tokenize_num_loop s num is_float = tokenize_num_loop (move s (length ds)) (num @ ds) is_float"
proof (induction ds arbitrary: s num)
  case Nil
  then show ?case by (simp add: move_0)
next
  case (Cons d ds)
  from Cons.prems have ok1: "stream_ok (move s 1)" and r1: "remaining (move s 1) = ds @ r"
    by (simp_all add: stream_ok_move remaining_move)
  from Cons.prems
  have "tokenize_num_loop s num is_float = tokenize_num_loop (move s 1) (num @ [d]) is_float"
    by (simp add: tokenize_num_loop.simps [of s] peek_ok next_ok)
  also from Cons.IH [OF ok1 r1] Cons.prems
  have "\<dots> = tokenize_num_loop (move (move s 1) (length ds)) ((num @ [d]) @ ds) is_float"
    by simp
  finally show ?case by (simp add: move_move)
qed

lemma tokenize_num_loop_end:
  "stream_ok s \<Longrightarrow> remaining s = [] \<Longrightarrow> tokenize_num_loop s num is_float = Inl AttributeError"
  by (simp add: tokenize_num_loop.simps [of s] peek_ok)

lemma tokenize_num_loop_point:
  "stream_ok s \<Longrightarrow> remaining s = CHR ''.'' # r \<Longrightarrow>
     tokenize_num_loop s num is_float =
       (if is_float then Inl (ValueError (InvalidNumeric (s_cursor s)))
        else tokenize_num_loop (move s 1) (num @ ''.'') True)"
  by (simp add: tokenize_num_loop.simps [of s] peek_ok next_ok isnumeric_def)

lemma tokenize_num_second_point:
  assumes "stream_ok s" and "remaining s = ds1 @ ''.'' @ ds2 @ ''.'' @ rest"
    and "list_all isnumeric ds1" and "list_all isnumeric ds2"
  shows "tokenize_num s
    = Inl (ValueError (InvalidNumeric (s_cursor s + int (length (ds1 @ ''.'' @ ds2)))))"
proof -
  let ?s1 = "move s (length ds1)"
  let ?s2 = "move ?s1 1"
  let ?s3 = "move ?s2 (length ds2)"
  from assms(1) have ok: "stream_ok ?s1" "stream_ok ?s2" "stream_ok ?s3"
    by (simp_all add: stream_ok_move)
  from assms(1,2) have r1: "remaining ?s1 = CHR ''.'' # ds2 @ ''.'' @ rest"
    by (simp add: remaining_move)
  from ok r1 have r2: "remaining ?s2 = ds2 @ ''.'' @ rest"
    by (simp add: remaining_move)
  from ok r2 have r3: "remaining ?s3 = CHR ''.'' # rest"
    by (simp add: remaining_move)
  have "tokenize_num_loop s [] False = tokenize_num_loop ?s1 ds1 False"
    using tokenize_num_loop_digits [OF assms(1,2,3), of "[]" False] by simp
  also have "\<dots> = tokenize_num_loop ?s2 (ds1 @ ''.'') True"
    using tokenize_num_loop_point [OF ok(1) r1] by simp
  also have "\<dots> = tokenize_num_loop ?s3 ((ds1 @ ''.'') @ ds2) True"
    using tokenize_num_loop_digits [OF ok(2) r2 assms(4)] by simp
  also have "\<dots> = Inl (ValueError (InvalidNumeric (s_cursor ?s3)))"
    using tokenize_num_loop_point [OF ok(3) r3] by simp
  finally show ?thesis
    by (simp add: tokenize_num_def move_fields)
qed

lemma tokenize_num_at_end:
  assumes "stream_ok s" and "remaining s = ds" and "list_all isnumeric ds"
  shows "tokenize_num s = Inl AttributeError"
proof -
  let ?s1 = "move s (length ds)"
  from assms(1) have ok: "stream_ok ?s1" by (simp add: stream_ok_move)
  from assms(1,2) have r1: "remaining ?s1 = []" by (simp add: remaining_move)
  have "tokenize_num_loop s [] False = tokenize_num_loop ?s1 ds False"
    using tokenize_num_loop_digits [OF assms(1) _ assms(3), of "[]" "[]" False] assms(2) by simp
  with tokenize_num_loop_end [OF ok r1] show ?thesis
    by (simp add: tokenize_num_def)
qed

lemma tokenize_step_number:
  assumes "stream_ok s" and "remaining s = ws @ d # r" and "list_all isspace ws"
    and "isnumeric d"
  shows "tokenize_step s =
    (case tokenize_num (move s (length ws)) of
       Inl e \<Rightarrow> Inl e
     | Inr (token, s3) \<Rightarrow> Inr (Some token, s3))"
proof -
  let ?s1 = "move s (length ws)"
  note d = isnumeric_other [OF assms(4)]
  from assms(1) have ok1: "stream_ok ?s1" by (rule stream_ok_move)
  from assms(1,2) have r1: "remaining ?s1 = d # r" by (simp add: remaining_move)
  from d have "\<not> isspace d" by simp
  from skip_whitespace_ok [OF assms(1,2,3) this] have w: "skip_whitespace s = Inr ?s1" .
  from ok1 r1 have c: "\<not> s_cursor ?s1 \<ge> s_end ?s1"
    using cursor_before_end [OF ok1] by simp
  from w c ok1 r1 d assms(4) show ?thesis
    by (simp add: tokenize_step_def peek_ok)
qed

text \<open>
  C7. Whenever the loop of \<^verbatim>\<open>tokenize\<close> starts a pass at a place of the text from
  which, after white space, a number begins that has a second \<^verbatim>\<open>.\<close> (numeric characters,
  at least one; a point; numeric characters; a point), \<^verbatim>\<open>tokenize\<close> raises the
  \<^verbatim>\<open>ValueError\<close> for an invalid number with the index of that second point in the text,
  and so does \<^verbatim>\<open>main\<close>.
\<close>

theorem second_point_invalid:
  assumes "loop_state data s tokens" and "data = pre @ ws @ ds1 @ ''.'' @ ds2 @ ''.'' @ rest"
    and "s_cursor s = int (length pre)" and "list_all isspace ws"
    and "ds1 \<noteq> []" and "list_all isnumeric ds1" and "list_all isnumeric ds2"
  shows "tokenize (Stream data)
      = Inl (ValueError (InvalidNumeric (int (length (pre @ ws @ ds1 @ ''.'' @ ds2)))))
    \<and> main data = Inl (ValueError (InvalidNumeric (int (length (pre @ ws @ ds1 @ ''.'' @ ds2)))))
    \<and> data ! length (pre @ ws @ ds1 @ ''.'' @ ds2) = CHR ''.''"
proof -
  let ?s1 = "move s (length ws)"
  from loop_state_ok [OF assms(1)] have ok: "stream_ok s" by simp
  from loop_state_remaining [OF assms(1,2,3)]
  have r: "remaining s = ws @ ds1 @ ''.'' @ ds2 @ ''.'' @ rest" .
  from assms(5) obtain d ds where ds1: "ds1 = d # ds" by (cases ds1) auto
  with assms(6) have d: "isnumeric d" by simp
  from r ds1 have r': "remaining s = ws @ d # (ds @ ''.'' @ ds2 @ ''.'' @ rest)" by simp
  from ok have ok1: "stream_ok ?s1" by (rule stream_ok_move)
  from ok r have r1: "remaining ?s1 = ds1 @ ''.'' @ ds2 @ ''.'' @ rest"
    by (simp add: remaining_move)
  from tokenize_step_number [OF ok r' assms(4) d]
    tokenize_num_second_point [OF ok1 r1 assms(6,7)] assms(3)
  have "tokenize_step s
      = Inl (ValueError (InvalidNumeric (int (length (pre @ ws @ ds1 @ ''.'' @ ds2)))))"
    by (simp add: move_fields)
  then have "tokenize_loop s tokens
      = Inl (ValueError (InvalidNumeric (int (length (pre @ ws @ ds1 @ ''.'' @ ds2)))))"
    by (simp add: tokenize_loop.simps [of s])
  with loop_state_tokenize [OF assms(1)]
  have "tokenize (Stream data)
      = Inl (ValueError (InvalidNumeric (int (length (pre @ ws @ ds1 @ ''.'' @ ds2)))))"
    by simp
  moreover have "data ! length (pre @ ws @ ds1 @ ''.'' @ ds2) = CHR ''.''"
    using assms(2) nth_append_length [of "pre @ ws @ ds1 @ ''.'' @ ds2" "CHR ''.''" rest]
    by simp
  ultimately show ?thesis by (simp add: main_tokenize_error)
qed

theorem second_point_invalid_witness:
  "tokenize (Stream ''1.2.3'') = Inl (ValueError (InvalidNumeric 3))
   \<and> main ''1.2.3'' = Inl (ValueError (InvalidNumeric 3))
   \<and> main ''[7, 10.25.'' = Inl (ValueError (InvalidNumeric 9))"
proof -
  have a: "loop_state ''1.2.3'' (Stream ''1.2.3'') []" by (rule loop_state.first)
  have f: "loop_state ''[7, 10.25.'' (Stream ''[7, 10.25.'') []" by (rule loop_state.first)
  have "tokenize_step (Stream ''[7, 10.25.'')
      = Inr (Some (TStr ''[''), \<lparr>s_data = ''[7, 10.25.'', s_cursor = 1, s_end = 10\<rparr>)"
    by code_simp
  from loop_state.again [OF f this]
  have g: "loop_state ''[7, 10.25.'' \<lparr>s_data = ''[7, 10.25.'', s_cursor = 1, s_end = 10\<rparr>
      [TStr ''['']"
    by simp
  have "tokenize_step \<lparr>s_data = ''[7, 10.25.'', s_cursor = 1, s_end = 10\<rparr>
      = Inr (Some (TInt 7), \<lparr>s_data = ''[7, 10.25.'', s_cursor = 2, s_end = 10\<rparr>)"
    by code_simp
  from loop_state.again [OF g this]
  have h: "loop_state ''[7, 10.25.'' \<lparr>s_data = ''[7, 10.25.'', s_cursor = 2, s_end = 10\<rparr>
      [TStr ''['', TInt 7]"
    by simp
  have "tokenize_step \<lparr>s_data = ''[7, 10.25.'', s_cursor = 2, s_end = 10\<rparr>
      = Inr (Some (TStr '',''), \<lparr>s_data = ''[7, 10.25.'', s_cursor = 3, s_end = 10\<rparr>)"
    by code_simp
  from loop_state.again [OF h this]
  have i: "loop_state ''[7, 10.25.'' \<lparr>s_data = ''[7, 10.25.'', s_cursor = 3, s_end = 10\<rparr>
      [TStr ''['', TInt 7, TStr '','']"
    by simp
  from second_point_invalid [OF a, of "''''" "''''" "''1''" "''2''" "''3''"]
    second_point_invalid [OF i, of "''[7,''" "'' ''" "''10''" "''25''" "''''"]
  show ?thesis by (simp add: isspace_def isnumeric_def Stream_def)
qed

text \<open>
  The defect behind C1, in general: whenever a pass of the loop starts, after white space,
  on numeric characters that go on to the end of the text, \<^verbatim>\<open>tokenize\<close> raises
  \<^verbatim>\<open>AttributeError\<close>.
\<close>

lemma number_scan_at_end:
  assumes "loop_state data s tokens" and "data = pre @ ws @ ds"
    and "s_cursor s = int (length pre)" and "list_all isspace ws"
    and "ds \<noteq> []" and "list_all isnumeric ds"
  shows "tokenize (Stream data) = Inl AttributeError"
proof -
  let ?s1 = "move s (length ws)"
  from loop_state_ok [OF assms(1)] have ok: "stream_ok s" by simp
  from loop_state_remaining [OF assms(1,2,3)] have r: "remaining s = ws @ ds" .
  from assms(5) obtain d ds' where ds: "ds = d # ds'" by (cases ds) auto
  with assms(6) have d: "isnumeric d" by simp
  from r ds have r': "remaining s = ws @ d # ds'" by simp
  from ok have ok1: "stream_ok ?s1" by (rule stream_ok_move)
  from ok r have r1: "remaining ?s1 = ds" by (simp add: remaining_move)
  from tokenize_step_number [OF ok r' assms(4) d] tokenize_num_at_end [OF ok1 r1 assms(6)]
  have "tokenize_step s = Inl AttributeError" by simp
  then have "tokenize_loop s tokens = Inl AttributeError"
    by (simp add: tokenize_loop.simps [of s])
  with loop_state_tokenize [OF assms(1)] show ?thesis by simp
qed

text \<open>
  C1, on the texts \<^verbatim>\<open>5\<close> and \<^verbatim>\<open>[1]2\<close>. After the digit the number scan peeks again, gets \<^verbatim>\<open>None\<close>
  at the end of the text and asks it whether it is numeric: the exception is
  \<^verbatim>\<open>AttributeError\<close>, and no token list is returned.
\<close>

theorem number_at_end_of_text:
  "tokenize (Stream ''5'') = Inl AttributeError \<and> main ''5'' = Inl AttributeError
   \<and> main ''[1]2'' = Inl AttributeError"
  by code_simp

text \<open>
  C2, on the text \<^verbatim>\<open>[1]2\<close>. The number scan of the \<^verbatim>\<open>2\<close> runs to the end of the text,
  where it asks \<^verbatim>\<open>None\<close> whether it is numeric: \<^verbatim>\<open>tokenize\<close> raises \<^verbatim>\<open>AttributeError\<close>
  and \<^verbatim>\<open>parse\<close> is never called. The check of \<^verbatim>\<open>parse\<close> for tokens after the document
  does what the claim says: on the four tokens of that text, and on the text with a space
  after it, the exception is the \<^verbatim>\<open>ValueError\<close> for a token at the end of the file, with
  the token 2.
\<close>

theorem trailing_number_at_end:
  "tokenize (Stream ''[1]2'') = Inl AttributeError
   \<and> main ''[1]2'' = Inl AttributeError
   \<and> parse (Stream [TStr ''['', TInt 1, TStr '']'', TInt 2])
       = Inl (ValueError (UnexpectedTokenAtEnd (Some (TInt 2))))
   \<and> main ''[1]2 '' = Inr (Inl (ValueError (UnexpectedTokenAtEnd (Some (TInt 2)))))"
  by code_simp

end
